theory Spec2Isabelle
  imports Complex_Main "HOL-Library.Word" "HOL-Library.Signed_Division"
begin

unbundle bit_operations_syntax

section \<open>Data model of the jpegli encoder front end (lib/jpegli/encode.cc)\<close>

text \<open>
  Machine types. \<open>uint8_t\<close>, \<open>JOCTET\<close> and \<open>unsigned char\<close> are 8-bit words;
  \<open>unsigned int\<close> and \<open>JDIMENSION\<close> (libjpeg's \<open>typedef unsigned int JDIMENSION\<close>)
  are 32-bit words, whose \<open>+\<close> wraps. A C \<open>int\<close> that the code only compares, copies
  or narrows to a byte is an \<open>int\<close>; a \<open>size_t\<close> is a \<open>nat\<close>, with the one
  subtraction the code performs on it written out modulo \<open>2 ^ 64\<close>.
  A C array reached through a pointer (\<open>comp_info\<close>, \<open>scan_info\<close>, \<open>scanlines\<close>,
  \<open>icc_data_ptr\<close>) is a function from the index to the element.
\<close>

type_synonym uint8_t = "8 word"
type_synonym JDIMENSION = "32 word"

text \<open>
  The source raises an error through \<open>JPEGLI_ERROR\<close> with a message; the errors carry
  the names of the spec's error list. \<open>DivisionByZero\<close> stands for the undefined
  \<open>%\<close> by zero, \<open>AssertionFailed\<close> for a failed \<open>JXL_ASSERT\<close> or
  \<open>JXL_DASSERT\<close>.
\<close>

datatype jpegli_error =
    InvalidComponents
  | UnsupportedSubsampling
  | NonIntegralSubsamplingRatio
  | InvalidSamplingFactor
  | InvalidMarkerLength
  | UnsupportedMarker
  | MarkerHeaderMissing
  | InvalidProgressiveLevel
  | DivisionByZero
  | AssertionFailed

text \<open>
  Modelled from the spec: the enumerations \<open>JpegliDataType\<close> and
  \<open>JpegliEndianness\<close> are declared in \<open>lib/jpegli/encode.h\<close>, which is outside
  this file; the spec gives the sample types U8, U16 and F32 and the byte orders NATIVE,
  LITTLE and BIG.
\<close>

datatype JpegliDataType = JPEGLI_TYPE_FLOAT | JPEGLI_TYPE_UINT8 | JPEGLI_TYPE_UINT16

datatype JpegliEndianness = JPEGLI_NATIVE_ENDIAN | JPEGLI_LITTLE_ENDIAN | JPEGLI_BIG_ENDIAN

record jpeg_component_info =
  h_samp_factor :: int
  v_samp_factor :: int

text \<open>
  \<open>component_index\<close> holds the entries the code writes (the first \<open>comps_in_scan\<close>
  ones of the fixed array).
\<close>

record jpeg_scan_info =
  comps_in_scan :: int
  component_index :: "int list"
  Ss :: int
  Se :: int
  Ah :: int
  Al :: int

record ProgressiveScan =
  pSs :: int
  pSe :: int
  pAh :: int
  pAl :: int
  interleaved :: bool

text \<open>
  \<open>cur_marker_data\<close> is a pointer to an element of \<open>special_markers\<close> or null: the
  index of that element, or \<open>None\<close>. \<open>input\<close> is the three float planes, read as
  \<open>input c y x\<close>; the type \<open>'f\<close> stands for \<open>float\<close>.
\<close>

record 'f jpeg_comp_master =
  special_markers :: "uint8_t list list"
  cur_marker_data :: "nat option"
  progressive_level :: int
  max_shift :: int
  data_type :: JpegliDataType
  endianness :: JpegliEndianness
  input :: "nat \<Rightarrow> nat \<Rightarrow> nat \<Rightarrow> 'f"

record 'f jpeg_compress_struct =
  master :: "'f jpeg_comp_master"
  image_width :: JDIMENSION
  image_height :: JDIMENSION
  num_components :: int
  comp_info :: "nat \<Rightarrow> jpeg_component_info"
  script_space :: "jpeg_scan_info list"
  script_space_size :: int
  scan_info :: "(nat \<Rightarrow> jpeg_scan_info) option"
  num_scans :: int
  progressive_mode :: bool
  next_scanline :: JDIMENSION
  max_h_samp_factor :: int
  max_v_samp_factor :: int

section \<open>Marker store\<close>

definition kICCSignature :: "uint8_t list" where
  "kICCSignature =
     [0x49, 0x43, 0x43, 0x5F, 0x50, 0x52, 0x4F, 0x46, 0x49, 0x4C, 0x45, 0x00]"

text \<open>\<open>JPEG_APP0\<close> is libjpeg's marker code \<open>0xE0\<close>, so \<open>kICCMarker\<close> is APP2.\<close>

definition JPEG_APP0 :: int where
  "JPEG_APP0 = 0xE0"

definition kICCMarker :: int where
  "kICCMarker = JPEG_APP0 + 2"

definition kMaxBytesInMarker :: nat where
  "kMaxBytesInMarker = 65533"

text \<open>
  \<open>JPEGLI_ERROR\<close> does not return: the call ends with the error. The two checks of
  \<open>jpegli_write_m_header\<close> run in the source's order, the length first.
  \<open>marker_data\<close> is the four-byte vector the function builds; its sum
  \<open>datalen + 2\<close> is formed in \<open>unsigned int\<close> and each entry is narrowed to a byte.
\<close>

definition marker_data :: "int \<Rightarrow> 32 word \<Rightarrow> uint8_t list" where
  "marker_data marker datalen =
     [0xff, word_of_int marker, ucast (drop_bit 8 (datalen + 2)),
      ucast ((datalen + 2) AND 0xff)]"

definition jpegli_write_m_header ::
  "'f jpeg_compress_struct \<Rightarrow> int \<Rightarrow> 32 word \<Rightarrow> jpegli_error + 'f jpeg_compress_struct" where
  "jpegli_write_m_header cinfo marker datalen =
     (let m = master cinfo in
      if unat datalen > kMaxBytesInMarker then Inl InvalidMarkerLength
      else if marker \<noteq> 0xfe \<and> (marker < 0xe0 \<or> marker > 0xef) then Inl UnsupportedMarker
      else
        let markers = special_markers m @ [marker_data marker datalen]
        in Inr (cinfo\<lparr>master := m\<lparr>special_markers := markers,
                                     cur_marker_data := Some (length markers - 1)\<rparr>\<rparr>))"

text \<open>
  \<open>push_back(val)\<close> narrows the \<open>int\<close> to \<open>uint8_t\<close>, which keeps the low 8 bits.
  An index that is not in the list stands for a dangling pointer, where the C++ is
  undefined; the list update leaves the list as it is there.
\<close>

definition jpegli_write_m_byte ::
  "'f jpeg_compress_struct \<Rightarrow> int \<Rightarrow> jpegli_error + 'f jpeg_compress_struct" where
  "jpegli_write_m_byte cinfo val =
     (let m = master cinfo in
      case cur_marker_data m of
        None \<Rightarrow> Inl MarkerHeaderMissing
      | Some i \<Rightarrow>
          Inr (cinfo\<lparr>master := m\<lparr>special_markers :=
                 (special_markers m)[i := special_markers m ! i @ [word_of_int val]]\<rparr>\<rparr>))"

text \<open>A run of \<open>jpegli_write_m_byte\<close> calls, one per value, stopping at the first error.\<close>

fun write_m_bytes ::
  "'f jpeg_compress_struct \<Rightarrow> int list \<Rightarrow> jpegli_error + 'f jpeg_compress_struct" where
  "write_m_bytes cinfo [] = Inr cinfo"
| "write_m_bytes cinfo (v # vs) =
     (case jpegli_write_m_byte cinfo v of
        Inl e \<Rightarrow> Inl e
      | Inr c \<Rightarrow> write_m_bytes c vs)"

subsection \<open>Writing a chunked ICC profile\<close>

definition kMaxIccBytesInMarker :: nat where
  "kMaxIccBytesInMarker = kMaxBytesInMarker - length kICCSignature - 2"

text \<open>
  Modelled from the spec: \<open>jpegli::DivCeil\<close> is declared in a header outside this file;
  it is the ceiling division \<open>(a + b - 1) / b\<close>. In \<open>jpegli_write_icc_profile\<close> its
  operands are a 32-bit length and a \<open>size_t\<close> constant, so the sum is formed in
  \<open>size_t\<close> and cannot wrap.
\<close>

definition DivCeil :: "nat \<Rightarrow> nat \<Rightarrow> nat" where
  "DivCeil a b = (a + b - 1) div b"

text \<open>Subtraction of two \<open>size_t\<close> values, which wraps modulo \<open>2 ^ 64\<close>.\<close>

definition size_t_minus :: "nat \<Rightarrow> nat \<Rightarrow> nat" where
  "size_t_minus a b = nat ((int a - int b) mod 2 ^ 64)"

text \<open>
  The body of the marker loop of \<open>jpegli_write_icc_profile\<close>: one APP2 marker holding
  the signature, the 1-based sequence number, the marker count and \<open>length\<close> profile
  bytes read from \<open>icc_data_ptr[begin ...]\<close>. It returns the context and the advanced
  \<open>begin\<close>.
\<close>

definition write_icc_marker ::
  "'f jpeg_compress_struct \<Rightarrow> (nat \<Rightarrow> uint8_t) \<Rightarrow> 32 word \<Rightarrow> int \<Rightarrow> int \<Rightarrow> nat
     \<Rightarrow> jpegli_error + ('f jpeg_compress_struct \<times> nat)" where
  "write_icc_marker cinfo icc_data_ptr icc_data_len num_markers current_marker begin =
     (let len = min kMaxIccBytesInMarker (size_t_minus (unat icc_data_len) begin) in
      case jpegli_write_m_header cinfo kICCMarker
             (word_of_nat (len + length kICCSignature + 2)) of
        Inl e \<Rightarrow> Inl e
      | Inr c1 \<Rightarrow>
      (case write_m_bytes c1 (map uint kICCSignature) of
        Inl e \<Rightarrow> Inl e
      | Inr c2 \<Rightarrow>
      (case jpegli_write_m_byte c2 (current_marker + 1) of
        Inl e \<Rightarrow> Inl e
      | Inr c3 \<Rightarrow>
      (case jpegli_write_m_byte c3 num_markers of
        Inl e \<Rightarrow> Inl e
      | Inr c4 \<Rightarrow>
      (case write_m_bytes c4 (map (\<lambda>i. uint (icc_data_ptr i)) [begin..<begin + len]) of
        Inl e \<Rightarrow> Inl e
      | Inr c5 \<Rightarrow> Inr (c5, begin + len))))))"

function icc_markers_loop ::
  "'f jpeg_compress_struct \<Rightarrow> (nat \<Rightarrow> uint8_t) \<Rightarrow> 32 word \<Rightarrow> int \<Rightarrow> int \<Rightarrow> nat
     \<Rightarrow> jpegli_error + 'f jpeg_compress_struct" where
  "icc_markers_loop cinfo icc_data_ptr icc_data_len num_markers current_marker begin =
     (if current_marker < num_markers then
        (case write_icc_marker cinfo icc_data_ptr icc_data_len num_markers current_marker begin of
           Inl e \<Rightarrow> Inl e
         | Inr (c, begin') \<Rightarrow>
             icc_markers_loop c icc_data_ptr icc_data_len num_markers (current_marker + 1) begin')
      else Inr cinfo)"
  by pat_completeness auto
termination
  by (relation "measure (\<lambda>(cinfo, p, l, num_markers, current_marker, b).
        nat (num_markers - current_marker))") auto

definition jpegli_write_icc_profile ::
  "'f jpeg_compress_struct \<Rightarrow> (nat \<Rightarrow> uint8_t) \<Rightarrow> 32 word
     \<Rightarrow> jpegli_error + 'f jpeg_compress_struct" where
  "jpegli_write_icc_profile cinfo icc_data_ptr icc_data_len =
     (let num_markers = int (DivCeil (unat icc_data_len) kMaxIccBytesInMarker)
      in icc_markers_loop cinfo icc_data_ptr icc_data_len num_markers 0 0)"

text \<open>
  The marker layout in the spec's words, to compare the loop with: chunk \<open>j\<close> (from 0)
  is the next at most \<open>kMaxIccBytesInMarker\<close> bytes of the profile, and its APP2 marker
  is the four header bytes, the 12-byte signature, the sequence number \<open>j + 1\<close>, the
  chunk count \<open>n\<close> and the chunk.
\<close>

definition icc_chunk :: "(nat \<Rightarrow> uint8_t) \<Rightarrow> nat \<Rightarrow> nat \<Rightarrow> uint8_t list" where
  "icc_chunk icc_data_ptr len j =
     map icc_data_ptr
       [j * kMaxIccBytesInMarker..<min len (j * kMaxIccBytesInMarker + kMaxIccBytesInMarker)]"

definition icc_marker :: "(nat \<Rightarrow> uint8_t) \<Rightarrow> nat \<Rightarrow> nat \<Rightarrow> nat \<Rightarrow> uint8_t list" where
  "icc_marker icc_data_ptr len n j =
     marker_data kICCMarker
       (word_of_nat (length (icc_chunk icc_data_ptr len j) + length kICCSignature + 2)) @
     kICCSignature @ [word_of_nat (j + 1), word_of_nat n] @ icc_chunk icc_data_ptr len j"

subsection \<open>Reading a chunked marker\<close>

definition GetMarkerPayload :: "uint8_t list \<Rightarrow> uint8_t list option" where
  "GetMarkerPayload data =
     (if length data < 4 then None
      else
        let hi = unat (data ! 2);
            lo = unat (data ! 3);
            internal_size = push_bit 8 hi OR lo
        in if internal_size \<noteq> length data - 2 then None
           else Some (drop 4 data))"

datatype parse_failure =
    ChunkTooSmall
  | InvalidChunkOrder
  | ZeroTotal
  | TotalMismatch
  | InvalidChunkIndex
  | DuplicateChunk
  | MissingChunk

record parse_state =
  chunks :: "uint8_t list list"
  presence :: "bool list"
  expected_number_of_parts :: nat
  is_first_chunk :: bool
  ordinal :: nat

text \<open>\<open>std::vector::resize\<close>: truncate, or pad with value-initialised elements.\<close>

definition resize :: "nat \<Rightarrow> 'a \<Rightarrow> 'a list \<Rightarrow> 'a list" where
  "resize n d xs = take n xs @ replicate (n - length xs) d"

text \<open>
  One iteration of the first loop of \<open>ParseChunkedMarker\<close>: \<open>Inr\<close> with the state
  unchanged is \<open>continue\<close>, \<open>Inl\<close> is the failing return.
\<close>

definition parse_marker ::
  "uint8_t \<Rightarrow> uint8_t list \<Rightarrow> bool \<Rightarrow> parse_state \<Rightarrow> uint8_t list
     \<Rightarrow> parse_failure + parse_state" where
  "parse_marker marker_type tag allow_permutations st marker =
     (if length marker < 2 \<or> marker ! 1 \<noteq> marker_type then Inr st
      else
        (case GetMarkerPayload marker of
           None \<Rightarrow> Inr st
         | Some payload \<Rightarrow>
             if length payload < length tag \<or> take (length tag) payload \<noteq> tag then Inr st
             else
               let payload = drop (length tag) payload in
               if length payload < 2 then Inl ChunkTooSmall
               else
                 let index = payload ! 0;
                     total = payload ! 1;
                     st = st\<lparr>ordinal := ordinal st + 1\<rparr>
                 in
                 if \<not> allow_permutations \<and> unat index \<noteq> ordinal st then Inl InvalidChunkOrder
                 else
                   let payload = drop 2 payload in
                   if total = 0 then Inl ZeroTotal
                   else
                     (case
                        (if is_first_chunk st then
                           Inr (st\<lparr>is_first_chunk := False,
                                    expected_number_of_parts := unat total,
                                    chunks := resize (unat total + 1) [] (chunks st),
                                    presence := resize (unat total + 1) False (presence st)\<rparr>)
                         else if expected_number_of_parts st \<noteq> unat total then Inl TotalMismatch
                         else Inr st)
                      of
                        Inl e \<Rightarrow> Inl e
                      | Inr st \<Rightarrow>
                          if index = 0 \<or> index > total then Inl InvalidChunkIndex
                          else if presence st ! unat index then Inl DuplicateChunk
                          else
                            Inr (st\<lparr>presence := (presence st)[unat index := True],
                                     chunks := (chunks st)[unat index := payload]\<rparr>))))"

fun parse_markers ::
  "uint8_t \<Rightarrow> uint8_t list \<Rightarrow> bool \<Rightarrow> parse_state \<Rightarrow> uint8_t list list
     \<Rightarrow> parse_failure + parse_state" where
  "parse_markers marker_type tag allow_permutations st [] = Inr st"
| "parse_markers marker_type tag allow_permutations st (marker # markers) =
     (case parse_marker marker_type tag allow_permutations st marker of
        Inl e \<Rightarrow> Inl e
      | Inr st' \<Rightarrow> parse_markers marker_type tag allow_permutations st' markers)"

text \<open>
  The second loop, over \<open>i = 0 ..< expected_number_of_parts\<close>, appending to the output.
  A failing return carries no output: the one caller clears it.
\<close>

fun append_chunks ::
  "parse_state \<Rightarrow> nat list \<Rightarrow> uint8_t list \<Rightarrow> parse_failure + uint8_t list" where
  "append_chunks st [] output = Inr output"
| "append_chunks st (i # rest) output =
     (let index = i + 1 in
      if \<not> presence st ! index then Inl MissingChunk
      else append_chunks st rest (output @ chunks st ! index))"

definition ParseChunkedMarker ::
  "'f jpeg_compress_struct \<Rightarrow> uint8_t \<Rightarrow> uint8_t list \<Rightarrow> bool
     \<Rightarrow> parse_failure + uint8_t list" where
  "ParseChunkedMarker cinfo marker_type tag allow_permutations =
     (case parse_markers marker_type tag allow_permutations
             \<lparr>chunks = [], presence = [], expected_number_of_parts = 0,
              is_first_chunk = True, ordinal = 0\<rparr>
             (special_markers (master cinfo)) of
        Inl e \<Rightarrow> Inl e
      | Inr st \<Rightarrow> append_chunks st [0..<expected_number_of_parts st] [])"

text \<open>
  For the round trip: the state of the first loop of \<open>ParseChunkedMarker\<close> after the
  first \<open>j\<close> of the \<open>n\<close> markers of a profile have been read. Slot 0 of both
  vectors is unused.
\<close>

definition parsed_prefix :: "(nat \<Rightarrow> uint8_t) \<Rightarrow> nat \<Rightarrow> nat \<Rightarrow> nat \<Rightarrow> parse_state" where
  "parsed_prefix icc_data_ptr len n j =
     (if j = 0 then
        \<lparr>chunks = [], presence = [], expected_number_of_parts = 0,
         is_first_chunk = True, ordinal = 0\<rparr>
      else
        \<lparr>chunks = [] # map (icc_chunk icc_data_ptr len) [0..<j] @ replicate (n - j) [],
         presence = False # replicate j True @ replicate (n - j) False,
         expected_number_of_parts = n, is_first_chunk = False, ordinal = j\<rparr>)"

subsection \<open>Replacing the ICC marker\<close>

text \<open>
  The loop of \<open>SetICCAppMarker\<close> over the old markers, building the new vector
  (the local \<open>special_markers\<close> of the source, here \<open>new_markers\<close>).
  \<open>JXL_DASSERT(v.size() >= 2)\<close> is the \<open>AssertionFailed\<close> branch.
\<close>

fun replace_icc_loop ::
  "uint8_t list \<Rightarrow> uint8_t list list \<Rightarrow> uint8_t list list \<Rightarrow> bool
     \<Rightarrow> jpegli_error + (uint8_t list list \<times> bool)" where
  "replace_icc_loop icc [] new_markers icc_added = Inr (new_markers, icc_added)"
| "replace_icc_loop icc (v # vs) new_markers icc_added =
     (if length v < 2 then Inl AssertionFailed
      else if v ! 1 \<noteq> 0xe2 then replace_icc_loop icc vs (new_markers @ [v]) icc_added
      else if \<not> icc_added then replace_icc_loop icc vs (new_markers @ [icc]) True
      else replace_icc_loop icc vs new_markers icc_added)"

definition SetICCAppMarker ::
  "'f jpeg_compress_struct \<Rightarrow> uint8_t list \<Rightarrow> jpegli_error + 'f jpeg_compress_struct" where
  "SetICCAppMarker cinfo icc =
     (case replace_icc_loop icc (special_markers (master cinfo)) [] False of
        Inl e \<Rightarrow> Inl e
      | Inr (markers, icc_added) \<Rightarrow>
          let markers = (if \<not> icc_added then markers @ [icc] else markers)
          in Inr (cinfo\<lparr>master := (master cinfo)\<lparr>special_markers := markers\<rparr>\<rparr>))"

section \<open>Scan-script planner\<close>

text \<open>The scan templates \<open>SetDefaultScanScript\<close> pushes for a progressive level.\<close>

definition default_progressive_mode :: "int \<Rightarrow> int \<Rightarrow> ProgressiveScan list" where
  "default_progressive_mode level max_shift' =
     (if level = 0 then
        [\<lparr>pSs = 0, pSe = 63, pAh = 0, pAl = 0, interleaved = True\<rparr>]
      else if level = 1 then
        [\<lparr>pSs = 0, pSe = 0, pAh = 0, pAl = 0, interleaved = max_shift' > 0\<rparr>,
         \<lparr>pSs = 1, pSe = 63, pAh = 0, pAl = 1, interleaved = False\<rparr>,
         \<lparr>pSs = 1, pSe = 63, pAh = 1, pAl = 0, interleaved = False\<rparr>]
      else
        [\<lparr>pSs = 0, pSe = 0, pAh = 0, pAl = 0, interleaved = max_shift' > 0\<rparr>,
         \<lparr>pSs = 1, pSe = 2, pAh = 0, pAl = 0, interleaved = False\<rparr>,
         \<lparr>pSs = 3, pSe = 63, pAh = 0, pAl = 2, interleaved = False\<rparr>,
         \<lparr>pSs = 3, pSe = 63, pAh = 2, pAl = 1, interleaved = False\<rparr>,
         \<lparr>pSs = 3, pSe = 63, pAh = 1, pAl = 0, interleaved = False\<rparr>])"

text \<open>
  The \<open>jpeg_scan_info\<close> entries one template writes at \<open>next_scan\<close>: one entry over
  all components when interleaved, else one entry per component \<open>c = 0 .. n - 1\<close>.
\<close>

definition scans_of_template :: "int \<Rightarrow> ProgressiveScan \<Rightarrow> jpeg_scan_info list" where
  "scans_of_template n scan =
     (if interleaved scan then
        [\<lparr>comps_in_scan = n, component_index = [0..n - 1],
          Ss = pSs scan, Se = pSe scan, Ah = pAh scan, Al = pAl scan\<rparr>]
      else
        map (\<lambda>c. \<lparr>comps_in_scan = 1, component_index = [c],
                  Ss = pSs scan, Se = pSe scan, Ah = pAh scan, Al = pAl scan\<rparr>)
            [0..n - 1])"

text \<open>
  \<open>scan_header\<close> reads the \<open>(Ss, Se, Ah, Al)\<close> tuple of a scan. In
  \<open>SetDefaultScanScript\<close>,
  \<open>JXL_ASSERT(next_scan - cinfo->script_space == cinfo->script_space_size)\<close> is the
  \<open>AssertionFailed\<close> branch.
\<close>

definition scan_header :: "jpeg_scan_info \<Rightarrow> int \<times> int \<times> int \<times> int" where
  "scan_header s = (Ss s, Se s, Ah s, Al s)"

definition SetDefaultScanScript ::
  "'f jpeg_compress_struct \<Rightarrow> int \<Rightarrow> jpegli_error + 'f jpeg_compress_struct" where
  "SetDefaultScanScript cinfo max_shift' =
     (let level = progressive_level (master cinfo);
          templates = default_progressive_mode level max_shift';
          size = fold (\<lambda>scan acc. acc + (if interleaved scan then 1 else num_components cinfo))
                   templates 0;
          scans = concat (map (scans_of_template (num_components cinfo)) templates)
      in if int (length scans) \<noteq> size then Inl AssertionFailed
         else Inr (cinfo\<lparr>script_space_size := size, script_space := scans,
                         scan_info := Some ((!) scans), num_scans := size\<rparr>))"

text \<open>
  The step of \<open>jpegli_finish_compress\<close> that fixes the scan script: the planner runs
  when no script was installed.
\<close>

definition finish_scan_script ::
  "'f jpeg_compress_struct \<Rightarrow> jpegli_error + 'f jpeg_compress_struct" where
  "finish_scan_script cinfo =
     (if scan_info cinfo = None then SetDefaultScanScript cinfo (max_shift (master cinfo))
      else Inr cinfo)"

section \<open>Starting a compression\<close>

text \<open>\<open>DCTSIZE2\<close> is libjpeg's number of coefficients of a block.\<close>

definition DCTSIZE2 :: int where
  "DCTSIZE2 = 64"

text \<open>
  The search \<open>for (; shift < 4; ++shift) if (factor == (1 << shift)) ...\<close>; it returns
  \<open>valid_factor\<close> and the \<open>shift\<close> the loop ends with.
\<close>

function shift_loop :: "int \<Rightarrow> int \<Rightarrow> bool \<times> int" where
  "shift_loop factor shift =
     (if shift < 4 then
        (if factor = push_bit (nat shift) 1 then (True, shift)
         else shift_loop factor (shift + 1))
      else (False, shift))"
  by pat_completeness auto
termination
  by (relation "measure (\<lambda>(factor, shift). nat (4 - shift))") auto

text \<open>
  The validation loop over the components, carrying \<open>max_shift\<close>. The C operators
  \<open>%\<close> and \<open>/\<close> truncate towards zero (\<open>smod\<close>, \<open>sdiv\<close>); with a zero divisor they
  are undefined, which is the \<open>DivisionByZero\<close> branch.
\<close>

fun validate_sampling ::
  "int \<Rightarrow> jpeg_component_info list \<Rightarrow> int \<Rightarrow> jpegli_error + int" where
  "validate_sampling max_h [] max_shift' = Inr max_shift'"
| "validate_sampling max_h (component # comps) max_shift' =
     (if h_samp_factor component \<noteq> v_samp_factor component then Inl UnsupportedSubsampling
      else if h_samp_factor component = 0 then Inl DivisionByZero
      else if max_h smod h_samp_factor component \<noteq> 0 then Inl NonIntegralSubsamplingRatio
      else
        let factor = max_h sdiv h_samp_factor component;
            (valid_factor, shift) = shift_loop factor 0
        in if \<not> valid_factor then Inl InvalidSamplingFactor
           else validate_sampling max_h comps (max shift max_shift'))"

text \<open>
  The entries \<open>comp_info[c]\<close> that a loop \<open>for (c = 0; c < num_components; ++c)\<close>
  visits, and the loop that takes the maximum of a sampling factor, starting from 1.
\<close>

definition components :: "'f jpeg_compress_struct \<Rightarrow> jpeg_component_info list" where
  "components cinfo = map (comp_info cinfo) [0..<nat (num_components cinfo)]"

definition max_samp_factor ::
  "(jpeg_component_info \<Rightarrow> int) \<Rightarrow> jpeg_component_info list \<Rightarrow> int" where
  "max_samp_factor factor_of comps = fold (\<lambda>component acc. max (factor_of component) acc) comps 1"

text \<open>
  \<open>jpegli_start_compress\<close>. \<open>fresh\<close> is the content of the newly allocated planes;
  the block extents, which only size that allocation, are left out.
\<close>

definition jpegli_start_compress ::
  "'f jpeg_compress_struct \<Rightarrow> bool \<Rightarrow> (nat \<Rightarrow> nat \<Rightarrow> nat \<Rightarrow> 'f)
     \<Rightarrow> jpegli_error + 'f jpeg_compress_struct" where
  "jpegli_start_compress cinfo write_all_tables fresh =
     (let m = master cinfo;
          progressive =
            (case scan_info cinfo of
               Some scans \<Rightarrow> Ss (scans 0) \<noteq> 0 \<or> Se (scans 0) \<noteq> DCTSIZE2 - 1
             | None \<Rightarrow> progressive_level m > 0);
          max_h = max_samp_factor h_samp_factor (components cinfo);
          max_v = max_samp_factor v_samp_factor (components cinfo)
      in case validate_sampling max_h (components cinfo) 0 of
           Inl e \<Rightarrow> Inl e
         | Inr shift \<Rightarrow>
             Inr (cinfo\<lparr>next_scanline := 0, progressive_mode := progressive,
                        max_h_samp_factor := max_h, max_v_samp_factor := max_v,
                        master := m\<lparr>max_shift := shift, input := fresh\<rparr>\<rparr>))"

text \<open>
  The sampling invariant in the spec's words: the two factors of the component are
  equal, \<open>max_h_samp_factor\<close> is an integer multiple of the factor, and the ratio is a
  power of two in \<open>{1, 2, 4, 8}\<close>. \<open>sampling_error\<close> names the error of a component
  that breaks it.
\<close>

definition sampling_ok :: "int \<Rightarrow> jpeg_component_info \<Rightarrow> bool" where
  "sampling_ok max_h component \<longleftrightarrow>
     h_samp_factor component = v_samp_factor component \<and>
     h_samp_factor component dvd max_h \<and>
     max_h div h_samp_factor component \<in> {1, 2, 4, 8}"

definition sampling_error :: "int \<Rightarrow> jpeg_component_info \<Rightarrow> jpegli_error" where
  "sampling_error max_h component =
     (if h_samp_factor component \<noteq> v_samp_factor component then UnsupportedSubsampling
      else if \<not> h_samp_factor component dvd max_h then NonIntegralSubsamplingRatio
      else InvalidSamplingFactor)"

section \<open>Input stager\<close>

text \<open>
  The arithmetic that turns a sample into a \<open>float\<close> (\<open>p[0] * kMul8\<close>,
  \<open>v * kMul16\<close>, the reinterpretation of four bytes) and the host's byte order
  (\<open>IsLittleEndian()\<close>) are parameters.
\<close>

record 'f sample_conv =
  of_uint8 :: "uint8_t \<Rightarrow> 'f"
  of_uint16 :: "16 word \<Rightarrow> 'f"
  of_float_bits :: "32 word \<Rightarrow> 'f"
  IsLittleEndian :: bool

text \<open>
  Modelled from the spec: the loads of \<open>lib/jxl/base/byte_order.h\<close>, which is outside
  this file, decode a sample at a byte pointer with the chosen endianness.
\<close>

definition LoadLE16 :: "(nat \<Rightarrow> uint8_t) \<Rightarrow> 16 word" where
  "LoadLE16 p = word_cat (p 1) (p 0)"

definition LoadBE16 :: "(nat \<Rightarrow> uint8_t) \<Rightarrow> 16 word" where
  "LoadBE16 p = word_cat (p 0) (p 1)"

definition LoadLE32 :: "(nat \<Rightarrow> uint8_t) \<Rightarrow> 32 word" where
  "LoadLE32 p = word_cat (word_cat (p 3) (p 2) :: 16 word) (word_cat (p 1) (p 0) :: 16 word)"

definition LoadBE32 :: "(nat \<Rightarrow> uint8_t) \<Rightarrow> 32 word" where
  "LoadBE32 p = word_cat (word_cat (p 0) (p 1) :: 16 word) (word_cat (p 2) (p 3) :: 16 word)"

text \<open>The loop \<open>for (x = 0; x < image_width; ++x) row[x] = g x\<close>.\<close>

definition store_samples :: "nat \<Rightarrow> (nat \<Rightarrow> 'f) \<Rightarrow> (nat \<Rightarrow> 'f) \<Rightarrow> (nat \<Rightarrow> 'f)" where
  "store_samples width g row = fold (\<lambda>x r. r(x := g x)) [0..<width] row"

text \<open>
  One row of component \<open>c\<close>: the branch on the sample type, then the loop over the
  columns, reading the source row \<open>src\<close> at \<open>p\<close>, which starts at \<open>c\<close> times the
  sample size and advances by \<open>pwidth\<close>.
\<close>

definition stage_row ::
  "'f sample_conv \<Rightarrow> JpegliDataType \<Rightarrow> bool \<Rightarrow> nat \<Rightarrow> nat \<Rightarrow> nat \<Rightarrow> (nat \<Rightarrow> uint8_t)
     \<Rightarrow> (nat \<Rightarrow> 'f) \<Rightarrow> (nat \<Rightarrow> 'f)" where
  "stage_row conv dt is_little_endian pwidth width c src row =
     (if dt = JPEGLI_TYPE_UINT8 then
        store_samples width (\<lambda>x. of_uint8 conv (src (c + x * pwidth))) row
      else if dt = JPEGLI_TYPE_UINT16 \<and> is_little_endian then
        store_samples width
          (\<lambda>x. of_uint16 conv (LoadLE16 (\<lambda>k. src (c * 2 + x * pwidth + k)))) row
      else if dt = JPEGLI_TYPE_UINT16 \<and> \<not> is_little_endian then
        store_samples width
          (\<lambda>x. of_uint16 conv (LoadBE16 (\<lambda>k. src (c * 2 + x * pwidth + k)))) row
      else if dt = JPEGLI_TYPE_FLOAT \<and> is_little_endian then
        store_samples width
          (\<lambda>x. of_float_bits conv (LoadLE32 (\<lambda>k. src (c * 4 + x * pwidth + k)))) row
      else if dt = JPEGLI_TYPE_FLOAT \<and> \<not> is_little_endian then
        store_samples width
          (\<lambda>x. of_float_bits conv (LoadBE32 (\<lambda>k. src (c * 4 + x * pwidth + k)))) row
      else row)"

text \<open>
  The loop over the rows \<open>i = 0 ..< num_lines\<close> for one component: row
  \<open>next_scanline + i\<close> of the plane is staged from \<open>scanlines[i]\<close>. The index is
  formed in \<open>size_t\<close>.
\<close>

definition stage_plane ::
  "'f sample_conv \<Rightarrow> JpegliDataType \<Rightarrow> bool \<Rightarrow> nat \<Rightarrow> nat \<Rightarrow> nat \<Rightarrow> nat
     \<Rightarrow> (nat \<Rightarrow> nat \<Rightarrow> uint8_t) \<Rightarrow> nat \<Rightarrow> (nat \<Rightarrow> nat \<Rightarrow> 'f) \<Rightarrow> (nat \<Rightarrow> nat \<Rightarrow> 'f)" where
  "stage_plane conv dt is_little_endian pwidth width first_row num_lines scanlines c plane =
     fold (\<lambda>i pl. pl(first_row + i :=
                      stage_row conv dt is_little_endian pwidth width c (scanlines i)
                        (pl (first_row + i))))
          [0..<num_lines] plane"

definition jpegli_write_scanlines ::
  "'f sample_conv \<Rightarrow> 'f jpeg_compress_struct \<Rightarrow> (nat \<Rightarrow> nat \<Rightarrow> uint8_t) \<Rightarrow> JDIMENSION
     \<Rightarrow> jpegli_error + ('f jpeg_compress_struct \<times> JDIMENSION)" where
  "jpegli_write_scanlines conv cinfo scanlines num_lines =
     (let m = master cinfo in
      if num_components cinfo > 3 then Inl InvalidComponents
      else
        let num_lines =
              (if num_lines + next_scanline cinfo > image_height cinfo
               then image_height cinfo - next_scanline cinfo else num_lines);
            bytes_per_sample =
              (if data_type m = JPEGLI_TYPE_UINT8 then 1
               else if data_type m = JPEGLI_TYPE_UINT16 then 2 else 4);
            pwidth = num_components cinfo * bytes_per_sample;
            is_little_endian =
              (endianness m = JPEGLI_LITTLE_ENDIAN \<or>
               (endianness m = JPEGLI_NATIVE_ENDIAN \<and> IsLittleEndian conv));
            planes =
              fold (\<lambda>c inp. inp(c :=
                      stage_plane conv (data_type m) is_little_endian (nat pwidth)
                        (unat (image_width cinfo)) (unat (next_scanline cinfo))
                        (unat num_lines) scanlines c (inp c)))
                   [0..<nat (num_components cinfo)] (input m)
        in Inr (cinfo\<lparr>master := m\<lparr>input := planes\<rparr>,
                       next_scanline := next_scanline cinfo + num_lines\<rparr>,
                num_lines))"

section \<open>A context to evaluate on\<close>

text \<open>
  A context for a 2 x 2 image of three components with the defaults of
  \<open>jpegli_CreateCompress\<close> and \<open>jpegli_set_defaults\<close>, planes filled with 0.
\<close>

definition sample_cinfo :: "nat jpeg_compress_struct" where
  "sample_cinfo =
     \<lparr>master = \<lparr>special_markers = [], cur_marker_data = None, progressive_level = 2,
                 max_shift = 0, data_type = JPEGLI_TYPE_UINT8,
                 endianness = JPEGLI_NATIVE_ENDIAN, input = (\<lambda>c y x. 0)\<rparr>,
      image_width = 2, image_height = 2, num_components = 3,
      comp_info = (\<lambda>c. \<lparr>h_samp_factor = 1, v_samp_factor = 1\<rparr>),
      script_space = [], script_space_size = 0, scan_info = None, num_scans = 0,
      progressive_mode = False, next_scanline = 0,
      max_h_samp_factor = 1, max_v_samp_factor = 1\<rparr>"

definition sample_conv :: "nat sample_conv" where
  "sample_conv =
     \<lparr>of_uint8 = unat, of_uint16 = unat, of_float_bits = unat, IsLittleEndian = True\<rparr>"

section \<open>Bytes of a marker header\<close>

lemma unat_plus2:
  assumes "unat (datalen :: 32 word) \<le> 65533"
  shows "unat (datalen + 2) = unat datalen + 2"
  using assms by (simp add: unat_word_ariths)

lemma ucast_hi_byte:
  fixes w :: "32 word"
  assumes "unat w < 65536"
  shows "unat (ucast (drop_bit 8 w) :: uint8_t) = unat w div 256"
proof -
  have "unat (ucast (drop_bit 8 w) :: uint8_t) = take_bit 8 (drop_bit 8 (unat w))"
    by (simp only: unsigned_ucast_eq unat_drop_bit_eq) simp
  also have "\<dots> = (unat w div 256) mod 256"
    by (simp add: take_bit_eq_mod drop_bit_eq_div)
  also have "\<dots> = unat w div 256"
    using assms by simp
  finally show ?thesis .
qed

lemma ucast_lo_byte:
  fixes w :: "32 word"
  shows "unat (ucast (w AND 0xff) :: uint8_t) = unat w mod 256"
proof -
  have "w AND 0xff = take_bit 8 w"
    by (simp add: take_bit_eq_mask mask_eq_exp_minus_1)
  then have "unat (ucast (w AND 0xff) :: uint8_t) = take_bit 8 (take_bit 8 (unat w))"
    by (simp only: unsigned_ucast_eq unsigned_take_bit_eq) simp
  then show ?thesis
    by (simp add: take_bit_eq_mod)
qed

lemma unat_marker_byte:
  assumes "0 \<le> marker" "marker < 256"
  shows "unat (word_of_int marker :: uint8_t) = nat marker"
  using assms by (simp add: unat_eq_nat_uint uint_word_of_int)

lemma marker_data_bytes:
  assumes "unat datalen \<le> 65533" "0 \<le> marker" "marker < 256"
  shows "map unat (marker_data marker datalen) =
           [0xFF, nat marker, (unat datalen + 2) div 256, (unat datalen + 2) mod 256]"
proof -
  have "unat (datalen + 2) < 65536" using assms(1) by (simp add: unat_plus2)
  then show ?thesis
    using assms
    by (simp add: marker_data_def ucast_hi_byte ucast_lo_byte unat_plus2 unat_marker_byte
          del: drop_bit_word_numeral)
qed

lemma write_m_header_ok:
  assumes "unat datalen \<le> 65533" "marker = 0xFE \<or> 0xE0 \<le> marker \<and> marker \<le> 0xEF"
  shows "jpegli_write_m_header cinfo marker datalen =
           Inr (cinfo\<lparr>master := (master cinfo)\<lparr>
                  special_markers := special_markers (master cinfo) @ [marker_data marker datalen],
                  cur_marker_data := Some (length (special_markers (master cinfo)))\<rparr>\<rparr>)"
  using assms by (auto simp: jpegli_write_m_header_def kMaxBytesInMarker_def Let_def)

section \<open>Claims about the marker store\<close>

text \<open>
  C8, as the code has it. \<open>jpegli_write_m_header\<close> fails with \<open>InvalidMarkerLength\<close>
  if and only if \<open>datalen > 65533\<close>. The marker check runs second, so the call fails with
  \<open>UnsupportedMarker\<close> if and only if \<open>datalen \<le> 65533\<close> and the marker is neither
  \<open>0xFE\<close> nor in \<open>[0xE0, 0xEF]\<close>. In every other case it succeeds, appends one fresh
  blob of exactly the four bytes \<open>0xFF\<close>, \<open>marker\<close>, \<open>(datalen + 2) >> 8\<close>,
  \<open>(datalen + 2) & 0xFF\<close> (none of them truncated) to \<open>special_markers\<close>, and sets
  \<open>cur_marker_data\<close> to that new last element.
\<close>

theorem write_m_header_checks:
  "(jpegli_write_m_header cinfo marker datalen = Inl InvalidMarkerLength
      \<longleftrightarrow> unat datalen > 65533) \<and>
   (jpegli_write_m_header cinfo marker datalen = Inl UnsupportedMarker
      \<longleftrightarrow> unat datalen \<le> 65533 \<and> marker \<noteq> 0xFE \<and> (marker < 0xE0 \<or> 0xEF < marker)) \<and>
   (unat datalen \<le> 65533 \<and> (marker = 0xFE \<or> 0xE0 \<le> marker \<and> marker \<le> 0xEF) \<longrightarrow>
      (\<exists>blob. jpegli_write_m_header cinfo marker datalen =
                Inr (cinfo\<lparr>master := (master cinfo)\<lparr>
                       special_markers := special_markers (master cinfo) @ [blob],
                       cur_marker_data := Some (length (special_markers (master cinfo)))\<rparr>\<rparr>) \<and>
              map unat blob =
                [0xFF, nat marker, (unat datalen + 2) div 256, (unat datalen + 2) mod 256]))"
proof (intro conjI impI)
  show "jpegli_write_m_header cinfo marker datalen = Inl InvalidMarkerLength
      \<longleftrightarrow> unat datalen > 65533"
    by (auto simp: jpegli_write_m_header_def kMaxBytesInMarker_def Let_def)
  show "jpegli_write_m_header cinfo marker datalen = Inl UnsupportedMarker
      \<longleftrightarrow> unat datalen \<le> 65533 \<and> marker \<noteq> 0xFE \<and> (marker < 0xE0 \<or> 0xEF < marker)"
    by (auto simp: jpegli_write_m_header_def kMaxBytesInMarker_def Let_def)
next
  assume a: "unat datalen \<le> 65533 \<and> (marker = 0xFE \<or> 0xE0 \<le> marker \<and> marker \<le> 0xEF)"
  then have r: "0 \<le> marker" "marker < 256" by auto
  from a show "\<exists>blob. jpegli_write_m_header cinfo marker datalen =
                Inr (cinfo\<lparr>master := (master cinfo)\<lparr>
                       special_markers := special_markers (master cinfo) @ [blob],
                       cur_marker_data := Some (length (special_markers (master cinfo)))\<rparr>\<rparr>) \<and>
              map unat blob =
                [0xFF, nat marker, (unat datalen + 2) div 256, (unat datalen + 2) mod 256]"
    using write_m_header_ok [of datalen marker cinfo] marker_data_bytes [of datalen marker] r
    by (intro exI [of _ "marker_data marker datalen"]) simp
qed

theorem write_m_header_checks_witness:
  "jpegli_write_m_header sample_cinfo 0xE2 300 \<noteq> Inl InvalidMarkerLength \<and>
   jpegli_write_m_header sample_cinfo 0xE2 300 \<noteq> Inl UnsupportedMarker \<and>
   unat (300 :: 32 word) \<le> 65533 \<and>
   (\<exists>blob. jpegli_write_m_header sample_cinfo 0xE2 300 =
                Inr (sample_cinfo\<lparr>master := (master sample_cinfo)\<lparr>
                       special_markers := special_markers (master sample_cinfo) @ [blob],
                       cur_marker_data := Some (length (special_markers (master sample_cinfo)))\<rparr>\<rparr>) \<and>
              map unat blob = [0xFF, 0xE2, 1, 46])"
  using write_m_header_checks [of sample_cinfo "0xE2" 300] by simp

text \<open>
  C8 as stated fails where both checks would fire: with marker \<open>0\<close> (neither COM nor
  APPn) and \<open>datalen = 65534\<close> the call ends with \<open>InvalidMarkerLength\<close>, not with
  \<open>UnsupportedMarker\<close>.
\<close>

theorem write_m_header_unsupported_counterexample:
  "jpegli_write_m_header sample_cinfo 0 65534 = Inl InvalidMarkerLength \<and>
   jpegli_write_m_header sample_cinfo 0 65534 \<noteq> Inl UnsupportedMarker \<and>
   (0 :: int) \<noteq> 0xFE \<and> (0 :: int) < 0xE0"
  by (simp add: jpegli_write_m_header_def kMaxBytesInMarker_def)

text \<open>
  C10. When a marker blob is open (\<open>cur_marker_data\<close> points at element \<open>i\<close> of
  \<open>special_markers\<close>), \<open>jpegli_write_m_byte cinfo v\<close> succeeds for every \<open>v\<close>; it
  appends exactly one byte to that blob and changes nothing else, and the byte is
  \<open>v mod 256\<close>: a value outside \<open>[0, 255]\<close> is truncated, not rejected.
\<close>

theorem write_m_byte_appends_low_byte:
  assumes "cur_marker_data (master cinfo) = Some i"
    and "i < length (special_markers (master cinfo))"
  shows "jpegli_write_m_byte cinfo v =
           Inr (cinfo\<lparr>master := (master cinfo)\<lparr>special_markers :=
                  (special_markers (master cinfo))
                    [i := special_markers (master cinfo) ! i @ [word_of_int v]]\<rparr>\<rparr>) \<and>
         (special_markers (master cinfo))
            [i := special_markers (master cinfo) ! i @ [word_of_int v]] ! i =
           special_markers (master cinfo) ! i @ [word_of_int v] \<and>
         uint (word_of_int v :: uint8_t) = v mod 256"
  using assms by (simp add: jpegli_write_m_byte_def Let_def uint_word_of_int)

theorem write_m_byte_appends_low_byte_witness:
  "jpegli_write_m_byte
       (sample_cinfo\<lparr>master := (master sample_cinfo)\<lparr>special_markers := [[0xff, 0xfe, 0, 3]],
                                                      cur_marker_data := Some 0\<rparr>\<rparr>) 300 =
     Inr (sample_cinfo\<lparr>master := (master sample_cinfo)\<lparr>
            special_markers := [[0xff, 0xfe, 0, 3, 44]], cur_marker_data := Some 0\<rparr>\<rparr>) \<and>
   uint (word_of_int 300 :: uint8_t) = 44"
  using write_m_byte_appends_low_byte
    [of "sample_cinfo\<lparr>master := (master sample_cinfo)\<lparr>special_markers := [[0xff, 0xfe, 0, 3]],
                                                        cur_marker_data := Some 0\<rparr>\<rparr>" 0 300]
  by simp

section \<open>Claim about the ICC marker replacement\<close>

lemma replace_icc_loop_added:
  assumes "\<forall>v \<in> set vs. 2 \<le> length v"
  shows "replace_icc_loop icc vs acc True = Inr (acc @ filter (\<lambda>v. v ! 1 \<noteq> 0xe2) vs, True)"
  using assms by (induction vs arbitrary: acc) auto

lemma replace_icc_loop_no_app2:
  assumes "\<forall>v \<in> set vs. 2 \<le> length v \<and> v ! 1 \<noteq> 0xe2"
  shows "replace_icc_loop icc vs acc False = Inr (acc @ vs, False)"
  using assms by (induction vs arbitrary: acc) auto

lemma replace_icc_loop_first_app2:
  assumes "\<forall>v \<in> set pre. 2 \<le> length v \<and> v ! 1 \<noteq> 0xe2"
    and "2 \<le> length a" and "a ! 1 = 0xe2"
    and "\<forall>v \<in> set post. 2 \<le> length v"
  shows "replace_icc_loop icc (pre @ a # post) acc False =
           Inr (acc @ pre @ icc # filter (\<lambda>v. v ! 1 \<noteq> 0xe2) post, True)"
  using assms
proof (induction pre arbitrary: acc)
  case Nil
  then show ?case by (simp add: replace_icc_loop_added)
next
  case (Cons p pre)
  then show ?case by simp
qed

text \<open>
  C4, as the code has it. When every stored marker has at least two bytes,
  \<open>SetICCAppMarker\<close> succeeds and rebuilds \<open>special_markers\<close> in order: if no entry
  is an APP2 marker (second byte \<open>0xE2\<close>), the blob is appended at the end; otherwise the
  first APP2 entry is replaced by the blob, the entries before it stay as they are, and
  of the entries after it the non-APP2 ones stay, in order, while every later APP2 entry
  is dropped.
\<close>

theorem set_icc_app_marker_rebuild:
  assumes "\<forall>v \<in> set (special_markers (master cinfo)). 2 \<le> length v"
  shows "((\<forall>v \<in> set (special_markers (master cinfo)). v ! 1 \<noteq> 0xe2) \<longrightarrow>
            SetICCAppMarker cinfo icc =
              Inr (cinfo\<lparr>master := (master cinfo)\<lparr>special_markers :=
                     special_markers (master cinfo) @ [icc]\<rparr>\<rparr>)) \<and>
         (special_markers (master cinfo) = pre @ a # post \<and>
          (\<forall>v \<in> set pre. v ! 1 \<noteq> 0xe2) \<and> a ! 1 = 0xe2 \<longrightarrow>
            SetICCAppMarker cinfo icc =
              Inr (cinfo\<lparr>master := (master cinfo)\<lparr>special_markers :=
                     pre @ icc # filter (\<lambda>v. v ! 1 \<noteq> 0xe2) post\<rparr>\<rparr>))"
proof (intro conjI impI)
  assume "\<forall>v \<in> set (special_markers (master cinfo)). v ! 1 \<noteq> 0xe2"
  with assms have "replace_icc_loop icc (special_markers (master cinfo)) [] False =
      Inr ([] @ special_markers (master cinfo), False)"
    by (intro replace_icc_loop_no_app2) simp
  then show "SetICCAppMarker cinfo icc =
              Inr (cinfo\<lparr>master := (master cinfo)\<lparr>special_markers :=
                     special_markers (master cinfo) @ [icc]\<rparr>\<rparr>)"
    by (simp add: SetICCAppMarker_def)
next
  assume h: "special_markers (master cinfo) = pre @ a # post \<and>
          (\<forall>v \<in> set pre. v ! 1 \<noteq> 0xe2) \<and> a ! 1 = 0xe2"
  with assms have "replace_icc_loop icc (pre @ a # post) [] False =
      Inr ([] @ pre @ icc # filter (\<lambda>v. v ! 1 \<noteq> 0xe2) post, True)"
    by (intro replace_icc_loop_first_app2) auto
  with h show "SetICCAppMarker cinfo icc =
              Inr (cinfo\<lparr>master := (master cinfo)\<lparr>special_markers :=
                     pre @ icc # filter (\<lambda>v. v ! 1 \<noteq> 0xe2) post\<rparr>\<rparr>)"
    by (simp add: SetICCAppMarker_def)
qed

theorem set_icc_app_marker_rebuild_witness:
  "SetICCAppMarker
     (sample_cinfo\<lparr>master := (master sample_cinfo)\<lparr>special_markers :=
        [[0xff, 0xfe, 0, 3, 1], [0xff, 0xe2, 0, 3, 2], [0xff, 0xe0, 0, 3, 3], [0xff, 0xe2, 0, 3, 4]]\<rparr>\<rparr>)
     [0xff, 0xe2, 0, 3, 9] =
   Inr (sample_cinfo\<lparr>master := (master sample_cinfo)\<lparr>special_markers :=
        [[0xff, 0xfe, 0, 3, 1], [0xff, 0xe2, 0, 3, 9], [0xff, 0xe0, 0, 3, 3]]\<rparr>\<rparr>)"
  using set_icc_app_marker_rebuild
    [of "sample_cinfo\<lparr>master := (master sample_cinfo)\<lparr>special_markers :=
        [[0xff, 0xfe, 0, 3, 1], [0xff, 0xe2, 0, 3, 2], [0xff, 0xe0, 0, 3, 3], [0xff, 0xe2, 0, 3, 4]]\<rparr>\<rparr>"
        "[0xff, 0xe2, 0, 3, 9]"
        "[[0xff, 0xfe, 0, 3, 1]]" "[0xff, 0xe2, 0, 3, 2]" "[[0xff, 0xe0, 0, 3, 3], [0xff, 0xe2, 0, 3, 4]]"]
  by simp

text \<open>
  C4 as stated fails on a later APP2 entry: with two APP2 markers stored, the result holds
  the blob alone, the second APP2 marker is gone.
\<close>

theorem set_icc_app_marker_later_app2_counterexample:
  "SetICCAppMarker
     (sample_cinfo\<lparr>master := (master sample_cinfo)\<lparr>special_markers :=
        [[0xff, 0xe2, 0, 3, 2], [0xff, 0xe2, 0, 3, 4]]\<rparr>\<rparr>)
     [0xff, 0xe2, 0, 3, 9] =
   Inr (sample_cinfo\<lparr>master := (master sample_cinfo)\<lparr>special_markers :=
        [[0xff, 0xe2, 0, 3, 9]]\<rparr>\<rparr>) \<and>
   [[0xff, 0xe2, 0, 3, 9 :: uint8_t]] \<noteq> [[0xff, 0xe2, 0, 3, 9], [0xff, 0xe2, 0, 3, 4]]"
  by (simp add: SetICCAppMarker_def)

section \<open>Claims about the scan script\<close>

lemma upto_0_2: "[0..(2::int)] = [0, 1, 2]" by (simp add: upto_rec1)

text \<open>
  C3, as the code has it. For \<open>num_components\<close> \<open>N\<close> in \<open>{1, 3}\<close> and a progressive
  level of at least 2, \<open>SetDefaultScanScript\<close> succeeds. When \<open>max_shift > 0\<close> it
  produces \<open>1 + 4 * N\<close> scans, and \<open>5 * N\<close> scans otherwise: the DC template
  \<open>(0,0,0,0)\<close> once (interleaved) or once per component, then \<open>N\<close> scans for each of
  \<open>(1,2,0,0)\<close>, \<open>(3,63,0,2)\<close>, \<open>(3,63,2,1)\<close>, \<open>(3,63,1,0)\<close>, in this order.
  Every field of every scan is fixed: the interleaved DC scan has \<open>comps_in_scan = N\<close>
  and the component indices \<open>0 .. N - 1\<close>; every other scan has \<open>comps_in_scan = 1\<close>
  and the single index of its component, the components running \<open>0 .. N - 1\<close> within
  each template. The first scan covers all components if and only if \<open>max_shift > 0\<close>
  or \<open>N = 1\<close>.
\<close>

theorem default_scan_script_level2:
  assumes "num_components cinfo = 1 \<or> num_components cinfo = 3"
    and "2 \<le> progressive_level (master cinfo)"
  shows "case SetDefaultScanScript cinfo shift of
           Inl e \<Rightarrow> False
         | Inr cinfo' \<Rightarrow>
             num_scans cinfo' =
               (if shift > 0 then 1 + 4 * num_components cinfo else 5 * num_components cinfo) \<and>
             int (length (script_space cinfo')) = num_scans cinfo' \<and>
             scan_info cinfo' = Some ((!) (script_space cinfo')) \<and>
             map scan_header (script_space cinfo') =
               replicate (if shift > 0 then 1 else nat (num_components cinfo)) (0, 0, 0, 0) @
               replicate (nat (num_components cinfo)) (1, 2, 0, 0) @
               replicate (nat (num_components cinfo)) (3, 63, 0, 2) @
               replicate (nat (num_components cinfo)) (3, 63, 2, 1) @
               replicate (nat (num_components cinfo)) (3, 63, 1, 0) \<and>
             map comps_in_scan (script_space cinfo') =
               (if shift > 0 then [num_components cinfo]
                else replicate (nat (num_components cinfo)) 1) @
               replicate (4 * nat (num_components cinfo)) 1 \<and>
             map component_index (script_space cinfo') =
               (if shift > 0 then [[0..num_components cinfo - 1]]
                else map (\<lambda>c. [c]) [0..num_components cinfo - 1]) @
               concat (replicate 4 (map (\<lambda>c. [c]) [0..num_components cinfo - 1])) \<and>
             (comps_in_scan (hd (script_space cinfo')) = num_components cinfo
                \<longleftrightarrow> shift > 0 \<or> num_components cinfo = 1) \<and>
             component_index (hd (script_space cinfo')) =
               (if shift > 0 then [0..num_components cinfo - 1] else [0])"
proof -
  from assms(2) have lv: "progressive_level (master cinfo) \<noteq> 0" "progressive_level (master cinfo) \<noteq> 1"
    by auto
  from assms(1) show ?thesis
  proof
    assume n: "num_components cinfo = 1"
    show ?thesis
      by (simp add: SetDefaultScanScript_def default_progressive_mode_def scans_of_template_def
            scan_header_def lv n Let_def numeral_eq_Suc)
  next
    assume n: "num_components cinfo = 3"
    show ?thesis
      by (simp add: SetDefaultScanScript_def default_progressive_mode_def scans_of_template_def
            scan_header_def lv n Let_def upto_0_2 numeral_eq_Suc)
  qed
qed

theorem default_scan_script_level2_witness:
  "case SetDefaultScanScript sample_cinfo 1 of
     Inl e \<Rightarrow> False
   | Inr cinfo' \<Rightarrow>
       num_scans cinfo' = 13 \<and>
       map scan_header (script_space cinfo') =
         [(0, 0, 0, 0),
          (1, 2, 0, 0), (1, 2, 0, 0), (1, 2, 0, 0),
          (3, 63, 0, 2), (3, 63, 0, 2), (3, 63, 0, 2),
          (3, 63, 2, 1), (3, 63, 2, 1), (3, 63, 2, 1),
          (3, 63, 1, 0), (3, 63, 1, 0), (3, 63, 1, 0)] \<and>
       map comps_in_scan (script_space cinfo') = [3, 1, 1, 1, 1, 1, 1, 1, 1, 1, 1, 1, 1] \<and>
       map component_index (script_space cinfo') =
         [[0, 1, 2], [0], [1], [2], [0], [1], [2], [0], [1], [2], [0], [1], [2]] \<and>
       comps_in_scan (hd (script_space cinfo')) = 3 \<and>
       component_index (hd (script_space cinfo')) = [0, 1, 2]"
  using default_scan_script_level2 [of sample_cinfo 1]
  by (simp add: sample_cinfo_def split: sum.splits add: numeral_eq_Suc upto_0_2)

text \<open>
  C3 as stated fails without subsampling: three components, level 2 and
  \<open>max_shift = 0\<close> give 15 scans, not \<open>1 + 3 * 3 + 3 = 13\<close>.
\<close>

theorem default_scan_script_count_counterexample:
  "map_sum id num_scans (SetDefaultScanScript sample_cinfo 0) = Inr 15 \<and>
   map_sum id (length \<circ> script_space) (SetDefaultScanScript sample_cinfo 0) = Inr 15 \<and>
   num_components sample_cinfo = 3 \<and> progressive_level (master sample_cinfo) = 2 \<and>
   (15 :: int) \<noteq> 1 + 3 * 3 + 3"
  by (simp add: sample_cinfo_def SetDefaultScanScript_def default_progressive_mode_def
        scans_of_template_def Let_def upto_0_2)

lemma length_scans_of_template:
  assumes "0 \<le> n"
  shows "int (length (scans_of_template n t)) = (if interleaved t then 1 else n)"
  using assms by (simp add: scans_of_template_def)

lemma hd_scans_of_template:
  assumes "1 \<le> n"
  shows "\<exists>s rest. scans_of_template n t = s # rest \<and> Ss s = pSs t \<and> Se s = pSe t"
proof (cases "interleaved t")
  case True
  then show ?thesis by (simp add: scans_of_template_def)
next
  case False
  from assms have "[0..n - 1] = 0 # [1..n - 1]" by (simp add: upto_rec1)
  with False show ?thesis by (simp add: scans_of_template_def)
qed

lemma default_scan_script_first:
  assumes "1 \<le> num_components cinfo" and "0 \<le> progressive_level (master cinfo)"
  shows "\<exists>scans. SetDefaultScanScript cinfo shift =
             Inr (cinfo\<lparr>script_space_size := int (length scans), script_space := scans,
                        scan_info := Some ((!) scans), num_scans := int (length scans)\<rparr>) \<and>
           scans \<noteq> [] \<and>
           (Ss (scans ! 0) \<noteq> 0 \<or> Se (scans ! 0) \<noteq> 63 \<longleftrightarrow> 0 < progressive_level (master cinfo))"
proof -
  let ?n = "num_components cinfo"
  let ?ts = "default_progressive_mode (progressive_level (master cinfo)) shift"
  let ?scans = "concat (map (scans_of_template ?n) ?ts)"
  have n0: "0 \<le> ?n" using assms(1) by simp
  have len: "int (length ?scans) =
      fold (\<lambda>scan acc. acc + (if interleaved scan then 1 else ?n)) ?ts 0"
    by (simp add: default_progressive_mode_def length_scans_of_template [OF n0])
  have "\<exists>t ts. ?ts = t # ts \<and> pSs t = 0 \<and>
          pSe t = (if progressive_level (master cinfo) = 0 then 63 else 0)"
    by (cases "progressive_level (master cinfo) = 0"; cases "progressive_level (master cinfo) = 1")
       (simp_all add: default_progressive_mode_def)
  then obtain t ts where ts: "?ts = t # ts" 
    and t: "pSs t = 0" "pSe t = (if progressive_level (master cinfo) = 0 then 63 else 0)"
    by blast
  from hd_scans_of_template [OF assms(1), of t] obtain s rest
    where s: "scans_of_template ?n t = s # rest" "Ss s = pSs t" "Se s = pSe t" by blast
  have hd: "?scans = s # rest @ concat (map (scans_of_template ?n) ts)"
    by (simp add: ts s)
  have "SetDefaultScanScript cinfo shift =
             Inr (cinfo\<lparr>script_space_size := int (length ?scans), script_space := ?scans,
                        scan_info := Some ((!) ?scans), num_scans := int (length ?scans)\<rparr>)"
    unfolding SetDefaultScanScript_def Let_def len [symmetric] by simp
  moreover have "?scans \<noteq> []" using hd by simp
  moreover have "Ss (?scans ! 0) \<noteq> 0 \<or> Se (?scans ! 0) \<noteq> 63 \<longleftrightarrow> 0 < progressive_level (master cinfo)"
    using assms(2) by (simp add: hd s t)
  ultimately show ?thesis by blast
qed

text \<open>
  C6. Let \<open>jpegli_start_compress\<close> succeed, and let the scan script then be fixed as
  \<open>jpegli_finish_compress\<close> does it (\<open>finish_scan_script\<close>): the installed script is
  kept, or the planner runs when none was installed. For a context of the data model
  (a progressive level of at least 0 and at least one component, which the planner case
  needs for a first scan to exist) this step succeeds, a script is in place, a script
  the user installed is unchanged, and \<open>progressive_mode\<close> is true if and only if
  \<open>scan_info[0].Ss \<noteq> 0\<close> or \<open>scan_info[0].Se \<noteq> 63\<close>.
\<close>

theorem progressive_mode_matches_first_scan:
  fixes cinfo :: "'f jpeg_compress_struct"
  assumes start: "jpegli_start_compress cinfo write_all_tables fresh = Inr c1"
    and model: "scan_info cinfo = None \<longrightarrow>
                  0 \<le> progressive_level (master cinfo) \<and> 1 \<le> num_components cinfo"
  shows "case finish_scan_script c1 of
           Inl e \<Rightarrow> False
         | Inr c2 \<Rightarrow>
             (case scan_info c2 of
                None \<Rightarrow> False
              | Some scans \<Rightarrow>
                  (scan_info cinfo \<noteq> None \<longrightarrow> scan_info cinfo = Some scans) \<and>
                  (progressive_mode c2 \<longleftrightarrow> Ss (scans 0) \<noteq> 0 \<or> Se (scans 0) \<noteq> 63))"
proof -
  from start obtain s where c1: "c1 = cinfo\<lparr>next_scanline := 0, progressive_mode :=
            (case scan_info cinfo of
               Some scans \<Rightarrow> Ss (scans 0) \<noteq> 0 \<or> Se (scans 0) \<noteq> DCTSIZE2 - 1
             | None \<Rightarrow> progressive_level (master cinfo) > 0),
            max_h_samp_factor := max_samp_factor h_samp_factor (components cinfo),
            max_v_samp_factor := max_samp_factor v_samp_factor (components cinfo),
            master := (master cinfo)\<lparr>max_shift := s, input := fresh\<rparr>\<rparr>"
    by (auto simp: jpegli_start_compress_def Let_def split: sum.splits)
  show ?thesis
  proof (cases "scan_info cinfo")
    case (Some scans)
    then show ?thesis by (simp add: c1 finish_scan_script_def DCTSIZE2_def)
  next
    case None
    with model have "1 \<le> num_components c1" "0 \<le> progressive_level (master c1)"
      by (simp_all add: c1)
    from default_scan_script_first [OF this, of "max_shift (master c1)"] obtain scans where
      sc: "SetDefaultScanScript c1 (max_shift (master c1)) =
             Inr (c1\<lparr>script_space_size := int (length scans), script_space := scans,
                        scan_info := Some ((!) scans), num_scans := int (length scans)\<rparr>)"
      "Ss (scans ! 0) \<noteq> 0 \<or> Se (scans ! 0) \<noteq> 63 \<longleftrightarrow> 0 < progressive_level (master c1)"
      by blast
    have "scan_info c1 = None" using None by (simp add: c1)
    then have "finish_scan_script c1 = Inr (c1\<lparr>script_space_size := int (length scans), script_space := scans,
                        scan_info := Some ((!) scans), num_scans := int (length scans)\<rparr>)"
      by (simp add: finish_scan_script_def sc(1))
    moreover have "progressive_mode c1 \<longleftrightarrow> 0 < progressive_level (master c1)"
      using None by (simp add: c1)
    ultimately show ?thesis using sc(2) None by simp
  qed
qed

theorem progressive_mode_matches_first_scan_witness:
  "case finish_scan_script
          (sample_cinfo\<lparr>next_scanline := 0, progressive_mode := True,
             master := (master sample_cinfo)\<lparr>max_shift := 0, input := (\<lambda>c y x. 7)\<rparr>\<rparr>) of
     Inl e \<Rightarrow> False
   | Inr c2 \<Rightarrow>
       (case scan_info c2 of
          None \<Rightarrow> False
        | Some scans \<Rightarrow> progressive_mode c2 \<and> Ss (scans 0) = 0 \<and> Se (scans 0) = 0)"
proof -
  have start: "jpegli_start_compress sample_cinfo False (\<lambda>c y x. 7) =
      Inr (sample_cinfo\<lparr>next_scanline := 0, progressive_mode := True,
             master := (master sample_cinfo)\<lparr>max_shift := 0, input := (\<lambda>c y x. 7)\<rparr>\<rparr>)"
    by (simp add: jpegli_start_compress_def sample_cinfo_def components_def max_samp_factor_def
          numeral_3_eq_3 shift_loop.simps [of 1 0]
          signed_modulo_int_def signed_divide_int_def)
  have model: "scan_info sample_cinfo = None \<longrightarrow>
                  0 \<le> progressive_level (master sample_cinfo) \<and> 1 \<le> num_components sample_cinfo"
    by (simp add: sample_cinfo_def)
  show ?thesis
    using progressive_mode_matches_first_scan [OF start model]
    by (simp add: sample_cinfo_def finish_scan_script_def SetDefaultScanScript_def
          default_progressive_mode_def scans_of_template_def upto_rec1 Let_def split: sum.splits option.splits)
qed

section \<open>Claim about the sampling validation\<close>

lemma shift_loop_0:
  "shift_loop factor 0 =
     (if factor = 1 then (True, 0) else if factor = 2 then (True, 1)
      else if factor = 4 then (True, 2) else if factor = 8 then (True, 3) else (False, 4))"
  by (simp add: shift_loop.simps [of factor 0] shift_loop.simps [of factor 1]
        shift_loop.simps [of factor 2] shift_loop.simps [of factor 3]
        shift_loop.simps [of factor 4])

lemma smod_eq_0_iff:
  fixes k l :: int
  assumes "l \<noteq> 0"
  shows "k smod l = 0 \<longleftrightarrow> l dvd k"
proof
  assume "k smod l = 0"
  then have "k = 0 \<or> \<bar>k\<bar> mod \<bar>l\<bar> = 0"
    by (auto simp: signed_modulo_int_def sgn_if split: if_splits)
  then show "l dvd k" by (auto simp: dvd_eq_mod_eq_0 [symmetric])
next
  assume "l dvd k"
  then show "k smod l = 0"
    by (simp add: signed_modulo_int_eq_modulo_int)
qed

lemma sdiv_eq_div_of_dvd:
  fixes k l :: int
  assumes "l dvd k"
  shows "k sdiv l = k div l"
  using assms by (simp add: signed_divide_int_eq_divide_int)

lemma validate_first_bad:
  assumes "\<forall>x \<in> set comps. h_samp_factor x \<noteq> 0"
    and "c < length comps" and "\<not> sampling_ok max_h (comps ! c)"
    and "\<forall>c' < c. sampling_ok max_h (comps ! c')"
  shows "validate_sampling max_h comps ms = Inl (sampling_error max_h (comps ! c))"
  using assms
proof (induction comps arbitrary: c ms)
  case Nil
  then show ?case by simp
next
  case (Cons x comps)
  show ?case
  proof (cases c)
    case 0
    with Cons.prems show ?thesis
      by (auto simp: sampling_ok_def sampling_error_def smod_eq_0_iff sdiv_eq_div_of_dvd
            shift_loop_0 split: if_splits)
  next
    case (Suc d)
    with Cons.prems have okx: "sampling_ok max_h x" by auto
    from Cons.prems Suc have
      "validate_sampling max_h comps ms' = Inl (sampling_error max_h (comps ! d))" for ms'
      by (intro Cons.IH) auto
    with okx Cons.prems(1) Suc show ?thesis
      by (auto simp: sampling_ok_def smod_eq_0_iff sdiv_eq_div_of_dvd shift_loop_0)
  qed
qed

lemma validate_all_ok:
  assumes "\<forall>x \<in> set comps. h_samp_factor x \<noteq> 0"
    and "\<forall>x \<in> set comps. sampling_ok max_h x"
  shows "\<exists>s. validate_sampling max_h comps ms = Inr s"
  using assms
proof (induction comps arbitrary: ms)
  case Nil
  then show ?case by simp
next
  case (Cons x comps)
  have rest: "\<exists>s. validate_sampling max_h comps ms' = Inr s" for ms'
    using Cons.prems by (intro Cons.IH) auto
  from Cons.prems have okx: "sampling_ok max_h x" and nz: "h_samp_factor x \<noteq> 0"
    by auto
  from okx nz show ?case
    using rest [of "max 0 ms"] rest [of "max 1 ms"] rest [of "max 2 ms"] rest [of "max 3 ms"]
    by (auto simp: sampling_ok_def smod_eq_0_iff sdiv_eq_div_of_dvd shift_loop_0)
qed

lemma least_bad:
  fixes c n :: nat
  assumes "c < n" "\<not> P c"
  shows "\<exists>d < n. \<not> P d \<and> (\<forall>e < d. P e)"
proof -
  define d where "d = (LEAST d. \<not> P d)"
  have "\<not> P d" unfolding d_def using assms(2) by (rule LeastI [of "\<lambda>d. \<not> P d"])
  moreover have "P e" if "e < d" for e
    using not_less_Least [of e "\<lambda>d. \<not> P d"] that by (simp add: d_def)
  moreover have "d \<le> c" unfolding d_def using assms(2) by (rule Least_le [of "\<lambda>d. \<not> P d"])
  ultimately show ?thesis using assms(1) by (intro exI [of _ d]) auto
qed

text \<open>
  C7, as the code has it. The components are checked in index order and the first one
  that breaks the sampling invariant ends the call. For a component table with no zero
  factor: \<open>jpegli_start_compress\<close> fails with \<open>UnsupportedSubsampling\<close> precisely when
  some component has \<open>h_samp_factor \<noteq> v_samp_factor\<close> and every component before it
  satisfies the invariant; it fails with \<open>NonIntegralSubsamplingRatio\<close> or
  \<open>InvalidSamplingFactor\<close> precisely when some component with equal factors has a
  \<open>max_h_samp_factor\<close> that is not an integer multiple of its factor, or a ratio
  outside \<open>{1, 2, 4, 8}\<close>, and every component before it satisfies the invariant; and
  it succeeds precisely when every component satisfies the invariant.
\<close>

theorem start_compress_sampling_validation:
  fixes cinfo :: "'f jpeg_compress_struct"
  assumes nz: "\<forall>c < length (components cinfo). h_samp_factor (components cinfo ! c) \<noteq> 0"
    and mh: "max_h = max_samp_factor h_samp_factor (components cinfo)"
    and r: "r = jpegli_start_compress cinfo write_all_tables fresh"
  shows "(r = Inl UnsupportedSubsampling \<longleftrightarrow>
            (\<exists>c < length (components cinfo).
               h_samp_factor (components cinfo ! c) \<noteq> v_samp_factor (components cinfo ! c) \<and>
               (\<forall>c' < c. sampling_ok max_h (components cinfo ! c')))) \<and>
         (r = Inl NonIntegralSubsamplingRatio \<or> r = Inl InvalidSamplingFactor \<longleftrightarrow>
            (\<exists>c < length (components cinfo).
               h_samp_factor (components cinfo ! c) = v_samp_factor (components cinfo ! c) \<and>
               \<not> sampling_ok max_h (components cinfo ! c) \<and>
               (\<forall>c' < c. sampling_ok max_h (components cinfo ! c')))) \<and>
         ((\<exists>cinfo'. r = Inr cinfo') \<longleftrightarrow>
            (\<forall>c < length (components cinfo). sampling_ok max_h (components cinfo ! c)))"
proof -
  let ?cs = "components cinfo"
  let ?v = "validate_sampling max_h ?cs 0"
  have nz': "\<forall>x \<in> set ?cs. h_samp_factor x \<noteq> 0"
    using nz by (auto simp: in_set_conv_nth)
  have rl: "r = Inl e" if "?v = Inl e" for e
    using that by (simp add: r jpegli_start_compress_def Let_def mh)
  have rr: "\<exists>cinfo'. r = Inr cinfo'" if "?v = Inr s" for s
    using that by (simp add: r jpegli_start_compress_def Let_def mh)
  have bad: "?v = Inl (sampling_error max_h (?cs ! c))"
    if "c < length ?cs" "\<not> sampling_ok max_h (?cs ! c)" "\<forall>c' < c. sampling_ok max_h (?cs ! c')" for c
    using nz' that by (rule validate_first_bad)
  have good: "\<exists>s. ?v = Inr s" if "\<forall>c < length ?cs. sampling_ok max_h (?cs ! c)"
    using nz' that by (intro validate_all_ok) (auto simp: in_set_conv_nth)
  consider (ok) "\<forall>c < length ?cs. sampling_ok max_h (?cs ! c)"
    | (bad) c where "c < length ?cs" "\<not> sampling_ok max_h (?cs ! c)"
        "\<forall>c' < c. sampling_ok max_h (?cs ! c')"
    using least_bad [of _ "length ?cs" "\<lambda>c. sampling_ok max_h (?cs ! c)"] by blast
  then show ?thesis
  proof cases
    case ok
    from good [OF ok] obtain s where s: "?v = Inr s" ..
    have "\<not> (\<exists>c < length ?cs. \<not> sampling_ok max_h (?cs ! c))" using ok by blast
    moreover have "\<forall>c < length ?cs. h_samp_factor (?cs ! c) = v_samp_factor (?cs ! c)"
      using ok by (simp add: sampling_ok_def)
    moreover from rr [OF s] obtain cinfo' where "r = Inr cinfo'" ..
    ultimately show ?thesis using ok by auto
  next
    case bad
    have uniq: "d = c" if "d < length ?cs" "\<not> sampling_ok max_h (?cs ! d)"
      "\<forall>c' < d. sampling_ok max_h (?cs ! c')" for d
      using that bad by (meson linorder_neqE_nat)
    have rb: "r = Inl (sampling_error max_h (?cs ! c))"
      using bad by (intro rl validate_first_bad [OF nz'])
    show ?thesis
    proof (intro conjI)
      show "r = Inl UnsupportedSubsampling \<longleftrightarrow>
            (\<exists>c < length ?cs. h_samp_factor (?cs ! c) \<noteq> v_samp_factor (?cs ! c) \<and>
               (\<forall>c' < c. sampling_ok max_h (?cs ! c')))"
      proof
        assume "r = Inl UnsupportedSubsampling"
        with rb have "h_samp_factor (?cs ! c) \<noteq> v_samp_factor (?cs ! c)"
          by (auto simp: sampling_error_def split: if_splits)
        with bad show "\<exists>c < length ?cs. h_samp_factor (?cs ! c) \<noteq> v_samp_factor (?cs ! c) \<and>
               (\<forall>c' < c. sampling_ok max_h (?cs ! c'))" by blast
      next
        assume "\<exists>c < length ?cs. h_samp_factor (?cs ! c) \<noteq> v_samp_factor (?cs ! c) \<and>
               (\<forall>c' < c. sampling_ok max_h (?cs ! c'))"
        then obtain d where d: "d < length ?cs" "h_samp_factor (?cs ! d) \<noteq> v_samp_factor (?cs ! d)"
          "\<forall>c' < d. sampling_ok max_h (?cs ! c')" by blast
        then have "\<not> sampling_ok max_h (?cs ! d)" by (simp add: sampling_ok_def)
        with d have "d = c" by (intro uniq)
        with d rb show "r = Inl UnsupportedSubsampling" by (simp add: sampling_error_def)
      qed
      show "r = Inl NonIntegralSubsamplingRatio \<or> r = Inl InvalidSamplingFactor \<longleftrightarrow>
            (\<exists>c < length ?cs. h_samp_factor (?cs ! c) = v_samp_factor (?cs ! c) \<and>
               \<not> sampling_ok max_h (?cs ! c) \<and> (\<forall>c' < c. sampling_ok max_h (?cs ! c')))"
      proof
        assume "r = Inl NonIntegralSubsamplingRatio \<or> r = Inl InvalidSamplingFactor"
        with rb have "h_samp_factor (?cs ! c) = v_samp_factor (?cs ! c)"
          by (auto simp: sampling_error_def split: if_splits)
        with bad show "\<exists>c < length ?cs. h_samp_factor (?cs ! c) = v_samp_factor (?cs ! c) \<and>
               \<not> sampling_ok max_h (?cs ! c) \<and> (\<forall>c' < c. sampling_ok max_h (?cs ! c'))" by blast
      next
        assume "\<exists>c < length ?cs. h_samp_factor (?cs ! c) = v_samp_factor (?cs ! c) \<and>
               \<not> sampling_ok max_h (?cs ! c) \<and> (\<forall>c' < c. sampling_ok max_h (?cs ! c'))"
        then obtain d where d: "d < length ?cs" "h_samp_factor (?cs ! d) = v_samp_factor (?cs ! d)"
          "\<not> sampling_ok max_h (?cs ! d)" "\<forall>c' < d. sampling_ok max_h (?cs ! c')" by blast
        then have "d = c" by (intro uniq)
        with d rb show "r = Inl NonIntegralSubsamplingRatio \<or> r = Inl InvalidSamplingFactor"
          by (simp add: sampling_error_def)
      qed
      show "(\<exists>cinfo'. r = Inr cinfo') \<longleftrightarrow>
            (\<forall>c < length ?cs. sampling_ok max_h (?cs ! c))"
        using rb bad by auto
    qed
  qed
qed

theorem start_compress_sampling_validation_witness:
  "jpegli_start_compress
      (sample_cinfo\<lparr>num_components := 2,
         comp_info := (!) [\<lparr>h_samp_factor = 2, v_samp_factor = 2\<rparr>,
                           \<lparr>h_samp_factor = 2, v_samp_factor = 1\<rparr>]\<rparr>)
      False (\<lambda>c y x. 0) = Inl UnsupportedSubsampling"
proof -
  let ?c = "sample_cinfo\<lparr>num_components := 2,
         comp_info := (!) [\<lparr>h_samp_factor = 2, v_samp_factor = 2\<rparr>,
                           \<lparr>h_samp_factor = 2, v_samp_factor = 1\<rparr>]\<rparr>"
  have cs: "components ?c = [\<lparr>h_samp_factor = 2, v_samp_factor = 2\<rparr>,
                           \<lparr>h_samp_factor = 2, v_samp_factor = 1\<rparr>]"
    by (simp add: components_def numeral_2_eq_2)
  have nz: "\<forall>c < length (components ?c). h_samp_factor (components ?c ! c) \<noteq> 0"
    by (simp add: cs less_Suc_eq)
  have mh: "2 = max_samp_factor h_samp_factor (components ?c)"
    by (simp add: cs max_samp_factor_def)
  have bad: "\<exists>c < length (components ?c).
               h_samp_factor (components ?c ! c) \<noteq> v_samp_factor (components ?c ! c) \<and>
               (\<forall>c' < c. sampling_ok 2 (components ?c ! c'))"
    by (intro exI [of _ 1]) (simp add: cs sampling_ok_def)
  show ?thesis
    using start_compress_sampling_validation [OF nz mh refl, of False "\<lambda>c y x. 0"] bad
    by blast
qed

text \<open>
  C7 as stated fails when an earlier component breaks another check: with the factors
  \<open>(2, 2)\<close> and \<open>(3, 1)\<close> the second component has unequal factors, yet the call ends
  at the first one with \<open>NonIntegralSubsamplingRatio\<close> (3 is not a multiple of 2).
\<close>

theorem start_compress_unsupported_counterexample:
  "jpegli_start_compress
      (sample_cinfo\<lparr>num_components := 2,
         comp_info := (!) [\<lparr>h_samp_factor = 2, v_samp_factor = 2\<rparr>,
                           \<lparr>h_samp_factor = 3, v_samp_factor = 1\<rparr>]\<rparr>)
      False (\<lambda>c y x. 0) = Inl NonIntegralSubsamplingRatio \<and>
   h_samp_factor ([\<lparr>h_samp_factor = 2, v_samp_factor = 2\<rparr>,
                   \<lparr>h_samp_factor = 3, v_samp_factor = 1\<rparr>] ! 1) \<noteq>
   v_samp_factor ([\<lparr>h_samp_factor = 2, v_samp_factor = 2\<rparr>,
                   \<lparr>h_samp_factor = 3, v_samp_factor = 1\<rparr>] ! 1)"
  by (simp add: jpegli_start_compress_def components_def max_samp_factor_def numeral_2_eq_2
        signed_modulo_int_def)

section \<open>Claims about the input stager\<close>

lemma store_samples_apply:
  "store_samples width g row x = (if x < width then g x else row x)"
  unfolding store_samples_def
  by (induction width arbitrary: row) auto

lemma stage_plane_split:
  assumes "k \<le> n"
  shows "stage_plane conv dt le pw w first n scanlines c plane =
           stage_plane conv dt le pw w (first + k) (n - k) (\<lambda>i. scanlines (k + i)) c
             (stage_plane conv dt le pw w first k scanlines c plane)"
proof -
  let ?f = "\<lambda>i pl. pl(first + i := stage_row conv dt le pw w c (scanlines i) (pl (first + i)))"
  have "[0..<k + (n - k)] = [0..<k] @ [k..<k + (n - k)]"
    by (intro upt_add_eq_append) simp
  with assms have "[0..<n] = [0..<k] @ map (\<lambda>i. i + k) [0..<n - k]"
    by (simp add: map_add_upt)
  then have "fold ?f [0..<n] plane = fold (?f \<circ> (\<lambda>i. i + k)) [0..<n - k] (fold ?f [0..<k] plane)"
    by (simp add: fold_map)
  moreover have "?f \<circ> (\<lambda>i. i + k) =
      (\<lambda>i pl. pl(first + k + i := stage_row conv dt le pw w c (scanlines (k + i)) (pl (first + k + i))))"
    by (auto simp: fun_eq_iff ac_simps)
  ultimately show ?thesis by (simp add: stage_plane_def)
qed

lemma fold_components_apply:
  "fold (\<lambda>c inp. inp(c := F c (inp c))) [0..<N] inp = (\<lambda>c. if c < N then F c (inp c) else inp c)"
  by (induction N) (auto simp: fun_eq_iff)

lemma write_scanlines_result:
  assumes "num_components cinfo \<le> 3"
  shows "jpegli_write_scanlines conv cinfo scanlines num_lines =
     (let m = master cinfo;
          lines = (if num_lines + next_scanline cinfo > image_height cinfo
               then image_height cinfo - next_scanline cinfo else num_lines);
          is_little_endian =
              (endianness m = JPEGLI_LITTLE_ENDIAN \<or>
               (endianness m = JPEGLI_NATIVE_ENDIAN \<and> IsLittleEndian conv));
          pwidth = nat (num_components cinfo *
              (if data_type m = JPEGLI_TYPE_UINT8 then 1
               else if data_type m = JPEGLI_TYPE_UINT16 then 2 else 4))
      in Inr (cinfo\<lparr>master := m\<lparr>input := (\<lambda>c. if c < nat (num_components cinfo) then
                    stage_plane conv (data_type m) is_little_endian pwidth
                        (unat (image_width cinfo)) (unat (next_scanline cinfo))
                        (unat lines) scanlines c (input m c) else input m c)\<rparr>,
                       next_scanline := next_scanline cinfo + lines\<rparr>, lines))"
  using assms
  by (simp add: jpegli_write_scanlines_def Let_def fold_components_apply)

lemma no_truncation:
  fixes n nxt h :: "32 word"
  assumes "nxt \<le> h" "n \<le> h - nxt"
  shows "\<not> (n + nxt > h)" and "unat (nxt + n) = unat nxt + unat n"
  using assms by unat_arith+

lemma split_words:
  fixes n k nxt h :: "32 word"
  assumes "nxt \<le> h" "n \<le> h - nxt" "k \<le> n"
  shows "\<not> (k + nxt > h)" "\<not> (n - k + (nxt + k) > h)" "unat (nxt + k) = unat nxt + unat k"
    "unat (n - k) = unat n - unat k" "unat k \<le> unat n" "nxt + k + (n - k) = nxt + n"
  using assms by (unat_arith, unat_arith, unat_arith, unat_arith, unat_arith, simp)

text \<open>
  C9. In a context with at most three components and \<open>next_scanline \<le> image_height\<close>,
  let \<open>n\<close> rows fit (\<open>n \<le> image_height - next_scanline\<close>) and let \<open>k \<le> n\<close>. Then
  writing the first \<open>k\<close> rows and then the remaining \<open>n - k\<close> rows (the row pointer
  advanced by \<open>k\<close>) succeeds, consumes \<open>k\<close> and \<open>n - k\<close> rows, and ends in the same
  context as writing all \<open>n\<close> rows in one call: the same planes and the same
  \<open>next_scanline\<close>. This holds for every sample type and byte order, and for any
  conversion of a sample to \<open>float\<close>.
\<close>

theorem write_scanlines_split:
  fixes cinfo :: "'f jpeg_compress_struct"
  assumes nc: "num_components cinfo \<le> 3"
    and inv: "next_scanline cinfo \<le> image_height cinfo"
    and fits: "n \<le> image_height cinfo - next_scanline cinfo"
    and kn: "k \<le> n"
  shows "case jpegli_write_scanlines conv cinfo scanlines k of
           Inl e \<Rightarrow> False
         | Inr (c1, m1) \<Rightarrow>
             m1 = k \<and>
             (case jpegli_write_scanlines conv c1 (\<lambda>i. scanlines (unat k + i)) (n - k) of
                Inl e \<Rightarrow> False
              | Inr (c2, m2) \<Rightarrow>
                  m2 = n - k \<and>
                  jpegli_write_scanlines conv cinfo scanlines n = Inr (c2, n) \<and>
                  input (master c2) =
                    input (master (fst (projr (jpegli_write_scanlines conv cinfo scanlines n)))) \<and>
                  next_scanline c2 = next_scanline cinfo + n)"
proof -
  note w = split_words [OF inv fits kn]
  note nt = no_truncation [OF inv fits]
  let ?m = "master cinfo"
  let ?le = "endianness ?m = JPEGLI_LITTLE_ENDIAN \<or>
               (endianness ?m = JPEGLI_NATIVE_ENDIAN \<and> IsLittleEndian conv)"
  let ?pw = "nat (num_components cinfo *
              (if data_type ?m = JPEGLI_TYPE_UINT8 then 1
               else if data_type ?m = JPEGLI_TYPE_UINT16 then 2 else 4))"
  let ?stage = "\<lambda>first lines sl c. stage_plane conv (data_type ?m) ?le ?pw
                  (unat (image_width cinfo)) first lines sl c"
  let ?planes = "\<lambda>first lines sl inp c.
      if c < nat (num_components cinfo) then ?stage first lines sl c (inp c) else inp c"
  define c1 where "c1 = cinfo\<lparr>master := ?m\<lparr>input :=
      ?planes (unat (next_scanline cinfo)) (unat k) scanlines (input ?m)\<rparr>,
      next_scanline := next_scanline cinfo + k\<rparr>"
  have r1: "jpegli_write_scanlines conv cinfo scanlines k = Inr (c1, k)"
    using w(1) by (simp add: write_scanlines_result [OF nc] c1_def Let_def split del: if_split)
  have nc1: "num_components c1 \<le> 3" using nc by (simp add: c1_def)
  define c2 where "c2 = c1\<lparr>master := (master c1)\<lparr>input :=
      ?planes (unat (next_scanline cinfo) + unat k) (unat n - unat k)
         (\<lambda>i. scanlines (unat k + i)) (input (master c1))\<rparr>,
      next_scanline := next_scanline c1 + (n - k)\<rparr>"
  have r2: "jpegli_write_scanlines conv c1 (\<lambda>i. scanlines (unat k + i)) (n - k) = Inr (c2, n - k)"
    using w(2) w(3) w(4)
    by (simp add: write_scanlines_result [OF nc1] c2_def Let_def split del: if_split)
       (simp add: c1_def split del: if_split cong: if_cong)
  have planes: "?planes (unat (next_scanline cinfo) + unat k) (unat n - unat k)
         (\<lambda>i. scanlines (unat k + i))
         (?planes (unat (next_scanline cinfo)) (unat k) scanlines (input ?m)) =
       ?planes (unat (next_scanline cinfo)) (unat n) scanlines (input ?m)"
  proof (rule ext)
    fix c
    show "?planes (unat (next_scanline cinfo) + unat k) (unat n - unat k)
         (\<lambda>i. scanlines (unat k + i))
         (?planes (unat (next_scanline cinfo)) (unat k) scanlines (input ?m)) c =
       ?planes (unat (next_scanline cinfo)) (unat n) scanlines (input ?m) c"
      by (cases "c < nat (num_components cinfo)")
         (simp_all add: stage_plane_split [OF w(5), symmetric] split del: if_split)
  qed
  have c2_eq: "c2 = cinfo\<lparr>master := ?m\<lparr>input :=
      ?planes (unat (next_scanline cinfo)) (unat n) scanlines (input ?m)\<rparr>,
      next_scanline := next_scanline cinfo + n\<rparr>"
    unfolding c2_def c1_def using planes w(6) by (simp split del: if_split cong: if_cong)
  have r: "jpegli_write_scanlines conv cinfo scanlines n = Inr (c2, n)"
    using nt(1) by (simp add: write_scanlines_result [OF nc] c2_eq Let_def split del: if_split)
  have "next_scanline c2 = next_scanline cinfo + n" by (simp add: c2_eq)
  with r1 r2 r show ?thesis by simp
qed

theorem write_scanlines_split_witness:
  "num_components sample_cinfo \<le> 3 \<and>
   next_scanline sample_cinfo \<le> image_height sample_cinfo \<and>
   (2 :: 32 word) \<le> image_height sample_cinfo - next_scanline sample_cinfo \<and>
   (1 :: 32 word) \<le> 2 \<and>
   (case jpegli_write_scanlines sample_conv sample_cinfo (\<lambda>i j. word_of_nat (10 * i + j)) 1 of
      Inl e \<Rightarrow> False
    | Inr (c1, m1) \<Rightarrow>
        m1 = 1 \<and>
        (case jpegli_write_scanlines sample_conv c1
                (\<lambda>i. (\<lambda>i j. word_of_nat (10 * i + j)) (unat (1 :: 32 word) + i)) (2 - 1) of
           Inl e \<Rightarrow> False
         | Inr (c2, m2) \<Rightarrow>
             m2 = 2 - 1 \<and>
             jpegli_write_scanlines sample_conv sample_cinfo (\<lambda>i j. word_of_nat (10 * i + j)) 2 =
               Inr (c2, 2) \<and>
             input (master c2) =
               input (master (fst (projr (jpegli_write_scanlines sample_conv sample_cinfo
                                            (\<lambda>i j. word_of_nat (10 * i + j)) 2)))) \<and>
             next_scanline c2 = next_scanline sample_cinfo + 2))"
proof -
  have h: "num_components sample_cinfo \<le> 3"
    "next_scanline sample_cinfo \<le> image_height sample_cinfo"
    "(2 :: 32 word) \<le> image_height sample_cinfo - next_scanline sample_cinfo"
    "(1 :: 32 word) \<le> 2"
    by (simp_all add: sample_cinfo_def)
  show ?thesis
    using h write_scanlines_split [OF h, of sample_conv "\<lambda>i j. word_of_nat (10 * i + j)"]
    by blast
qed

text \<open>
  C5. Where the 32-bit sum \<open>num_lines + next_scanline\<close> does not wrap, the call does
  what C5 says: it consumes \<open>min n (image_height - next_scanline)\<close> rows, advances
  \<open>next_scanline\<close> by that number and keeps \<open>next_scanline \<le> image_height\<close>
  (\<open>write_scanlines_without_wrap\<close>); the invariant is kept in every case
  (\<open>write_scanlines_keeps_invariant\<close>).
\<close>

lemma write_scanlines_without_wrap:
  fixes cinfo :: "'f jpeg_compress_struct"
  assumes nc: "num_components cinfo \<le> 3"
    and inv: "next_scanline cinfo \<le> image_height cinfo"
    and nowrap: "unat n + unat (next_scanline cinfo) < 2 ^ 32"
  shows "\<exists>c' m. jpegli_write_scanlines conv cinfo scanlines n = Inr (c', m) \<and>
           unat m = min (unat n) (unat (image_height cinfo) - unat (next_scanline cinfo)) \<and>
           unat (next_scanline c') = unat (next_scanline cinfo) + unat m \<and>
           next_scanline c' \<le> image_height c'"
proof -
  let ?h = "image_height cinfo" and ?x = "next_scanline cinfo"
  define m where "m = (if n + ?x > ?h then ?h - ?x else n)"
  have s: "unat (n + ?x) = unat n + unat ?x"
    using nowrap by (simp add: unat_add_lem [THEN iffD1])
  have m: "unat m = min (unat n) (unat ?h - unat ?x)"
    using inv s by (auto simp: m_def word_less_nat_alt word_le_nat_alt unat_sub)
  have fit: "unat ?x + unat m \<le> unat ?h"
    using inv m by (simp add: word_le_nat_alt)
  have hb: "unat ?h < 4294967296"
    using unsigned_less [of ?h, where ?'a = nat] by simp
  have x': "unat (?x + m) = unat ?x + unat m"
    using fit hb by (intro unat_add_lem [THEN iffD1]) simp
  then have le: "?x + m \<le> ?h"
    using fit by (simp add: word_le_nat_alt)
  have "jpegli_write_scanlines conv cinfo scanlines n =
          Inr (cinfo\<lparr>master := (master cinfo)\<lparr>input :=
                  input (master (fst (projr (jpegli_write_scanlines conv cinfo scanlines n))))\<rparr>,
                    next_scanline := ?x + m\<rparr>, m)"
    by (simp add: write_scanlines_result [OF nc] Let_def m_def split del: if_split)
  with m x' le show ?thesis
    by (intro exI [of _ m] exI [of _ "cinfo\<lparr>master := (master cinfo)\<lparr>input :=
                  input (master (fst (projr (jpegli_write_scanlines conv cinfo scanlines n))))\<rparr>,
                    next_scanline := ?x + m\<rparr>"]) simp
qed

lemma write_scanlines_keeps_invariant:
  fixes cinfo :: "'f jpeg_compress_struct"
  assumes nc: "num_components cinfo \<le> 3"
    and inv: "next_scanline cinfo \<le> image_height cinfo"
    and r: "jpegli_write_scanlines conv cinfo scanlines n = Inr (c', m)"
  shows "next_scanline c' \<le> image_height c'"
proof -
  let ?h = "image_height cinfo" and ?x = "next_scanline cinfo"
  have "?x + (if n + ?x > ?h then ?h - ?x else n) \<le> ?h"
    by (auto simp: not_less add.commute)
  with r show ?thesis
    by (auto simp: write_scanlines_result [OF nc] Let_def split del: if_split)
qed

text \<open>
  C5 fails where the sum wraps. With \<open>image_height = 2\<close>, \<open>next_scanline = 1\<close> and
  \<open>num_lines = 0xFFFFFFFF\<close> the sum is 0, the comparison with \<open>image_height\<close> is
  false and nothing is truncated: the call returns \<open>0xFFFFFFFF\<close> instead of 1 and
  leaves \<open>next_scanline = 0\<close> instead of 2. With no component the call touches no row
  and its whole result is the one shown.
\<close>

theorem write_scanlines_wrap_evaluated:
  "map_sum id snd
     (jpegli_write_scanlines sample_conv (sample_cinfo\<lparr>next_scanline := 1\<rparr>)
        (\<lambda>i j. 0) 0xFFFFFFFF) = Inr 0xFFFFFFFF \<and>
   map_sum id (next_scanline \<circ> fst)
     (jpegli_write_scanlines sample_conv (sample_cinfo\<lparr>next_scanline := 1\<rparr>)
        (\<lambda>i j. 0) 0xFFFFFFFF) = Inr 0 \<and>
   jpegli_write_scanlines sample_conv (sample_cinfo\<lparr>num_components := 0, next_scanline := 1\<rparr>)
        (\<lambda>i j. 0) 0xFFFFFFFF =
     Inr (sample_cinfo\<lparr>num_components := 0, next_scanline := 0\<rparr>, 0xFFFFFFFF) \<and>
   image_height sample_cinfo - 1 = 1 \<and>
   num_components sample_cinfo = 3"
proof -
  have nc: "num_components (sample_cinfo\<lparr>next_scanline := 1\<rparr>) \<le> 3"
    by (simp add: sample_cinfo_def)
  have nc0: "num_components (sample_cinfo\<lparr>num_components := 0, next_scanline := 1\<rparr>) \<le> 3"
    by simp
  show ?thesis
    by (simp add: write_scanlines_result [OF nc] write_scanlines_result [OF nc0] Let_def
          split del: if_split)
       (simp add: sample_cinfo_def)
qed

section \<open>Claims about the chunked ICC profile\<close>

subsection \<open>What the write loop appends\<close>

declare icc_markers_loop.simps [simp del]

lemma write_m_bytes_open:
  assumes "cur_marker_data (master cinfo) = Some i" "i < length (special_markers (master cinfo))"
  shows "write_m_bytes cinfo vs =
           Inr (cinfo\<lparr>master := (master cinfo)\<lparr>special_markers :=
                  (special_markers (master cinfo))
                    [i := special_markers (master cinfo) ! i @ map word_of_int vs]\<rparr>\<rparr>)"
  using assms
proof (induction vs arbitrary: cinfo)
  case Nil
  then show ?case by simp
next
  case (Cons v vs)
  let ?c = "cinfo\<lparr>master := (master cinfo)\<lparr>special_markers :=
                  (special_markers (master cinfo))
                    [i := special_markers (master cinfo) ! i @ [word_of_int v]]\<rparr>\<rparr>"
  have step: "jpegli_write_m_byte cinfo v = Inr ?c"
    using Cons.prems by (simp add: jpegli_write_m_byte_def Let_def)
  have "write_m_bytes ?c vs = Inr (?c\<lparr>master := (master ?c)\<lparr>special_markers :=
                  (special_markers (master ?c))
                    [i := special_markers (master ?c) ! i @ map word_of_int vs]\<rparr>\<rparr>)"
    using Cons.prems by (intro Cons.IH) simp_all
  with step Cons.prems show ?case by simp
qed

lemma write_icc_marker_ok:
  fixes cinfo :: "'f jpeg_compress_struct"
  assumes "begin \<le> unat icc_data_len"
    and "clen = min kMaxIccBytesInMarker (unat icc_data_len - begin)"
  shows "write_icc_marker cinfo icc_data_ptr icc_data_len num_markers current_marker begin =
           Inr (cinfo\<lparr>master := (master cinfo)\<lparr>
                  special_markers := special_markers (master cinfo) @
                    [marker_data kICCMarker (word_of_nat (clen + length kICCSignature + 2)) @
                     kICCSignature @ [word_of_int (current_marker + 1), word_of_int num_markers] @
                     map icc_data_ptr [begin..<begin + clen]],
                  cur_marker_data := Some (length (special_markers (master cinfo)))\<rparr>\<rparr>,
                begin + clen)"
proof -
  let ?ms = "special_markers (master cinfo)"
  let ?hdr = "marker_data kICCMarker (word_of_nat (clen + length kICCSignature + 2))"
  have sm: "size_t_minus (unat icc_data_len) begin = unat icc_data_len - begin"
  proof -
    have "unat icc_data_len < 4294967296"
      using unsigned_less [of icc_data_len, where ?'a = nat] by simp
    then have lt: "unat icc_data_len - begin < 2 ^ 64" by simp
    have "int (unat icc_data_len) - int begin = int (unat icc_data_len - begin)"
      using assms(1) by simp
    then have "size_t_minus (unat icc_data_len) begin = (unat icc_data_len - begin) mod 2 ^ 64"
      unfolding size_t_minus_def by (simp add: nat_mod_distrib)
    with lt show ?thesis by simp
  qed
  have clen: "clen \<le> 65519"
    by (simp add: assms(2) kMaxIccBytesInMarker_def kMaxBytesInMarker_def kICCSignature_def)
  have "unat (word_of_nat (clen + length kICCSignature + 2) :: 32 word) =
          clen + length kICCSignature + 2"
    by (subst unat_of_nat) (use clen in \<open>simp add: kICCSignature_def\<close>)
  with clen have dl: "unat (word_of_nat (clen + length kICCSignature + 2) :: 32 word) \<le> 65533"
    by (simp add: kICCSignature_def)
  define c1 where "c1 = cinfo\<lparr>master := (master cinfo)\<lparr>
                  special_markers := ?ms @ [?hdr], cur_marker_data := Some (length ?ms)\<rparr>\<rparr>"
  have h: "jpegli_write_m_header cinfo kICCMarker (word_of_nat (clen + length kICCSignature + 2)) = Inr c1"
    unfolding c1_def by (intro write_m_header_ok dl) (simp add: kICCMarker_def JPEG_APP0_def)
  define c2 where "c2 = cinfo\<lparr>master := (master cinfo)\<lparr>
                  special_markers := ?ms @ [?hdr @ kICCSignature], cur_marker_data := Some (length ?ms)\<rparr>\<rparr>"
  have s: "write_m_bytes c1 (map uint kICCSignature) = Inr c2"
    by (subst write_m_bytes_open [of c1 "length ?ms"])
       (simp_all add: c1_def c2_def comp_def)
  define c3 where "c3 = cinfo\<lparr>master := (master cinfo)\<lparr>
                  special_markers := ?ms @ [?hdr @ kICCSignature @ [word_of_int (current_marker + 1)]],
                  cur_marker_data := Some (length ?ms)\<rparr>\<rparr>"
  have b1: "jpegli_write_m_byte c2 (current_marker + 1) = Inr c3"
    by (simp add: jpegli_write_m_byte_def c2_def c3_def Let_def)
  define c4 where "c4 = cinfo\<lparr>master := (master cinfo)\<lparr>
                  special_markers := ?ms @ [?hdr @ kICCSignature @
                     [word_of_int (current_marker + 1), word_of_int num_markers]],
                  cur_marker_data := Some (length ?ms)\<rparr>\<rparr>"
  have b2: "jpegli_write_m_byte c3 num_markers = Inr c4"
    by (simp add: jpegli_write_m_byte_def c3_def c4_def Let_def)
  define c5 where "c5 = cinfo\<lparr>master := (master cinfo)\<lparr>
                  special_markers := ?ms @ [?hdr @ kICCSignature @
                     [word_of_int (current_marker + 1), word_of_int num_markers] @
                     map icc_data_ptr [begin..<begin + clen]],
                  cur_marker_data := Some (length ?ms)\<rparr>\<rparr>"
  have d: "write_m_bytes c4 (map (\<lambda>i. uint (icc_data_ptr i)) [begin..<begin + clen]) = Inr c5"
    by (subst write_m_bytes_open [of c4 "length ?ms"])
       (simp_all add: c4_def c5_def comp_def)
  show ?thesis
    unfolding write_icc_marker_def Let_def sm assms(2) [symmetric]
    by (simp only: h s b1 b2 d sum.case c5_def)
qed


lemma DivCeil_less:
  assumes "i < DivCeil L K" "0 < K"
  shows "i * K < L"
proof -
  from assms(1) have "Suc i \<le> (L + K - 1) div K" by (simp add: DivCeil_def)
  then have "Suc i * K \<le> (L + K - 1) div K * K" by (rule mult_le_mono1)
  also have "\<dots> \<le> L + K - 1" by (rule div_times_less_eq_dividend)
  finally show ?thesis using assms(2) by simp
qed

lemma DivCeil_cover:
  assumes "0 < K"
  shows "L \<le> DivCeil L K * K"
proof -
  have "(L + K - 1) mod K < K" using assms by simp
  then have "L + K - 1 < (L + K - 1) div K * K + K"
    using div_mult_mod_eq [of "L + K - 1" K] by linarith
  then show ?thesis using assms by (simp add: DivCeil_def)
qed

lemma icc_marker_eq:
  assumes "j * kMaxIccBytesInMarker \<le> L"
    and "clen = min kMaxIccBytesInMarker (L - j * kMaxIccBytesInMarker)"
  shows "marker_data kICCMarker (word_of_nat (clen + length kICCSignature + 2)) @
           kICCSignature @ [word_of_int (int j + 1), word_of_int (int n)] @
           map p [j * kMaxIccBytesInMarker..<j * kMaxIccBytesInMarker + clen] =
         icc_marker p L n j"
proof -
  have e: "j * kMaxIccBytesInMarker + clen =
        min L (j * kMaxIccBytesInMarker + kMaxIccBytesInMarker)"
    using assms by auto
  have l: "length (icc_chunk p L j) = clen"
    using assms by (auto simp: icc_chunk_def)
  have w: "(word_of_int (int j + 1) :: uint8_t) = word_of_nat (j + 1)" by simp
  show ?thesis
    unfolding icc_marker_def l w by (simp add: icc_chunk_def e)
qed

lemma icc_markers_loop_ok:
  fixes cinfo :: "'f jpeg_compress_struct"
  assumes "d = n - j" "j \<le> n" "\<forall>i < n. i * kMaxIccBytesInMarker \<le> unat len"
    and "j < n \<longrightarrow> b = j * kMaxIccBytesInMarker"
  shows "icc_markers_loop cinfo p len (int n) (int j) b =
           Inr (cinfo\<lparr>master := (master cinfo)\<lparr>
                  special_markers := special_markers (master cinfo) @
                    map (icc_marker p (unat len) n) [j..<n],
                  cur_marker_data :=
                    (if j < n then Some (length (special_markers (master cinfo)) + (n - j) - 1)
                     else cur_marker_data (master cinfo))\<rparr>\<rparr>)"
  using assms
proof (induction d arbitrary: j b cinfo)
  case 0
  then have "j = n" by simp
  then show ?case by (simp add: icc_markers_loop.simps [of cinfo p len "int n" "int n" b])
next
  case (Suc d)
  let ?K = "kMaxIccBytesInMarker"
  let ?ms = "special_markers (master cinfo)"
  from Suc.prems have jn: "j < n" and b: "b = j * ?K" by auto
  with Suc.prems have bl: "b \<le> unat len" by simp
  define clen where "clen = min ?K (unat len - b)"
  define c1 where "c1 = cinfo\<lparr>master := (master cinfo)\<lparr>
      special_markers := ?ms @ [icc_marker p (unat len) n j],
      cur_marker_data := Some (length ?ms)\<rparr>\<rparr>"
  have body: "write_icc_marker cinfo p len (int n) (int j) b = Inr (c1, b + clen)"
    unfolding c1_def
    using write_icc_marker_ok [OF bl clen_def, of cinfo p "int n" "int j"]
      icc_marker_eq [of j "unat len" clen n p] bl
    by (simp add: b clen_def)
  have next_b: "Suc j < n \<longrightarrow> b + clen = Suc j * ?K"
  proof
    assume "Suc j < n"
    with Suc.prems(3) have "Suc j * ?K \<le> unat len" by blast
    then show "b + clen = Suc j * ?K" by (simp add: b clen_def)
  qed
  have ih: "icc_markers_loop c1 p len (int n) (int (Suc j)) (b + clen) =
           Inr (c1\<lparr>master := (master c1)\<lparr>
                  special_markers := special_markers (master c1) @
                    map (icc_marker p (unat len) n) [Suc j..<n],
                  cur_marker_data :=
                    (if Suc j < n then Some (length (special_markers (master c1)) + (n - Suc j) - 1)
                     else cur_marker_data (master c1))\<rparr>\<rparr>)"
    using Suc.prems jn next_b by (intro Suc.IH) auto
  have "icc_markers_loop cinfo p len (int n) (int j) b =
          icc_markers_loop c1 p len (int n) (int (Suc j)) (b + clen)"
    using jn by (subst icc_markers_loop.simps) (simp add: body add.commute)
  also note ih
  finally show ?case
    using jn by (simp add: c1_def upt_conv_Cons)
qed

lemma write_icc_profile_markers:
  fixes cinfo :: "'f jpeg_compress_struct"
  assumes "n = DivCeil (unat len) kMaxIccBytesInMarker"
  shows "jpegli_write_icc_profile cinfo p len =
           Inr (cinfo\<lparr>master := (master cinfo)\<lparr>
                  special_markers := special_markers (master cinfo) @
                    map (icc_marker p (unat len) n) [0..<n],
                  cur_marker_data :=
                    (if 0 < n then Some (length (special_markers (master cinfo)) + n - 1)
                     else cur_marker_data (master cinfo))\<rparr>\<rparr>)"
proof -
  have K: "0 < kMaxIccBytesInMarker"
    by (simp add: kMaxIccBytesInMarker_def kMaxBytesInMarker_def kICCSignature_def)
  have "\<forall>i < n. i * kMaxIccBytesInMarker \<le> unat len"
    using DivCeil_less [OF _ K, of _ "unat len"] assms by (auto intro: less_imp_le)
  then have "icc_markers_loop cinfo p len (int n) (int 0) 0 =
           Inr (cinfo\<lparr>master := (master cinfo)\<lparr>
                  special_markers := special_markers (master cinfo) @
                    map (icc_marker p (unat len) n) [0..<n],
                  cur_marker_data :=
                    (if 0 < n then Some (length (special_markers (master cinfo)) + (n - 0) - 1)
                     else cur_marker_data (master cinfo))\<rparr>\<rparr>)"
    by (intro icc_markers_loop_ok [of n]) simp_all
  then show ?thesis
    by (simp add: jpegli_write_icc_profile_def assms Let_def)
qed

lemma kMaxIccBytesInMarker_value: "kMaxIccBytesInMarker = 65519"
  by (simp add: kMaxIccBytesInMarker_def kMaxBytesInMarker_def kICCSignature_def)

lemma DivCeil_ceiling:
  assumes "0 < K"
  shows "int (DivCeil L K) = \<lceil>real L / real K\<rceil>"
proof (rule ceiling_unique [symmetric])
  have "real L \<le> real (DivCeil L K * K)"
    using DivCeil_cover [OF assms, of L] by (simp only: of_nat_le_iff)
  then show "real L / real K \<le> of_int (int (DivCeil L K))"
    using assms by (simp add: pos_divide_le_eq)
  show "of_int (int (DivCeil L K)) - 1 < real L / real K"
  proof (cases "DivCeil L K")
    case 0
    have "0 \<le> real L / real K" by simp
    then have "- 1 < real L / real K" by linarith
    with 0 show ?thesis by simp
  next
    case (Suc m)
    then have "m * K < L" using DivCeil_less [of m L K] assms by simp
    then have "real (m * K) < real L" by (simp only: of_nat_less_iff)
    then show ?thesis using assms Suc by (simp add: pos_less_divide_eq)
  qed
qed

lemma upt_split_at:
  assumes "a \<le> e"
  shows "[0..<e] = [0..<a] @ [a..<e]"
  using upt_add_eq_append [of 0 a "e - a"] assms by simp

lemma length_icc_chunk:
  "length (icc_chunk p L j) =
     min L (j * kMaxIccBytesInMarker + kMaxIccBytesInMarker) - j * kMaxIccBytesInMarker"
  by (simp add: icc_chunk_def)

lemma concat_icc_chunks:
  assumes "j \<le> DivCeil L kMaxIccBytesInMarker"
  shows "concat (map (icc_chunk p L) [0..<j]) = map p [0..<min L (j * kMaxIccBytesInMarker)]"
  using assms
proof (induction j)
  case 0
  then show ?case by simp
next
  case (Suc j)
  let ?K = "kMaxIccBytesInMarker"
  have K: "0 < ?K" by (simp add: kMaxIccBytesInMarker_value)
  from Suc.prems have "j * ?K < L" by (intro DivCeil_less [OF _ K]) simp
  then have m: "min L (j * ?K) = j * ?K" by simp
  have "[0..<j * ?K] @ [j * ?K..<min L (j * ?K + ?K)] = [0..<min L (j * ?K + ?K)]"
    using \<open>j * ?K < L\<close> by (intro upt_split_at [symmetric]) simp
  then have "map p [0..<j * ?K] @ icc_chunk p L j = map p [0..<min L (Suc j * ?K)]"
    unfolding icc_chunk_def by (simp flip: map_append add: add.commute)
  with Suc show ?case by (simp add: m)
qed

lemma icc_marker_layout:
  "length (icc_marker p L n j) = 4 + 12 + 2 + length (icc_chunk p L j) \<and>
   icc_marker p L n j ! 0 = 0xFF \<and> icc_marker p L n j ! 1 = 0xE2 \<and>
   take 12 (drop 4 (icc_marker p L n j)) = kICCSignature \<and>
   icc_marker p L n j ! 16 = word_of_nat (j + 1) \<and>
   icc_marker p L n j ! 17 = word_of_nat n \<and>
   drop 18 (icc_marker p L n j) = icc_chunk p L j"
proof -
  define chunk where "chunk = icc_chunk p L j"
  define d :: "32 word" where "d = word_of_nat (length chunk + length kICCSignature + 2)"
  have m: "icc_marker p L n j =
      marker_data kICCMarker d @ kICCSignature @ [word_of_nat (j + 1), word_of_nat n] @ chunk"
    by (simp add: icc_marker_def chunk_def d_def)
  obtain hi lo where h: "marker_data kICCMarker d = [0xFF, 0xE2, hi, lo]"
    by (simp add: marker_data_def kICCMarker_def JPEG_APP0_def)
  show ?thesis
    unfolding m h chunk_def [symmetric]
    by (simp add: kICCSignature_def)
qed

text \<open>
  C2, as the code has it. The chunk limit is \<open>kMaxIccBytesInMarker\<close>, which is
  \<open>65533 - 12 - 2 = 65519\<close>. For every 32-bit length, \<open>jpegli_write_icc_profile\<close>
  succeeds and appends \<open>ceil(len / 65519)\<close> markers to \<open>special_markers\<close>. Each is
  an APP2 marker made of the 4 header bytes, the 12-byte signature, the sequence and
  count bytes and then its chunk, which holds at least 1 and at most 65519 profile
  bytes; the chunks, in order, are the profile.
\<close>

theorem write_icc_profile_chunking:
  fixes cinfo :: "'f jpeg_compress_struct"
  assumes "n = DivCeil (unat len) kMaxIccBytesInMarker"
  shows "jpegli_write_icc_profile cinfo p len =
           Inr (cinfo\<lparr>master := (master cinfo)\<lparr>
                  special_markers := special_markers (master cinfo) @
                    map (icc_marker p (unat len) n) [0..<n],
                  cur_marker_data :=
                    (if 0 < n then Some (length (special_markers (master cinfo)) + n - 1)
                     else cur_marker_data (master cinfo))\<rparr>\<rparr>) \<and>
         kMaxIccBytesInMarker = 65519 \<and>
         int n = \<lceil>real (unat len) / 65519\<rceil> \<and>
         (\<forall>j < n.
            0 < length (icc_chunk p (unat len) j) \<and>
            length (icc_chunk p (unat len) j) \<le> 65519 \<and>
            length (icc_marker p (unat len) n j) = 4 + 12 + 2 + length (icc_chunk p (unat len) j) \<and>
            icc_marker p (unat len) n j ! 1 = 0xE2 \<and>
            take 12 (drop 4 (icc_marker p (unat len) n j)) = kICCSignature \<and>
            drop 18 (icc_marker p (unat len) n j) = icc_chunk p (unat len) j) \<and>
         concat (map (icc_chunk p (unat len)) [0..<n]) = map p [0..<unat len]"
proof (intro conjI allI impI)
  let ?K = "kMaxIccBytesInMarker"
  have K: "0 < ?K" by (simp add: kMaxIccBytesInMarker_value)
  show "jpegli_write_icc_profile cinfo p len =
           Inr (cinfo\<lparr>master := (master cinfo)\<lparr>
                  special_markers := special_markers (master cinfo) @
                    map (icc_marker p (unat len) n) [0..<n],
                  cur_marker_data :=
                    (if 0 < n then Some (length (special_markers (master cinfo)) + n - 1)
                     else cur_marker_data (master cinfo))\<rparr>\<rparr>)"
    using assms by (rule write_icc_profile_markers)
  show "?K = 65519" by (rule kMaxIccBytesInMarker_value)
  show "int n = \<lceil>real (unat len) / 65519\<rceil>"
    using DivCeil_ceiling [OF K, of "unat len"] by (simp add: assms kMaxIccBytesInMarker_value)
  show "concat (map (icc_chunk p (unat len)) [0..<n]) = map p [0..<unat len]"
    using concat_icc_chunks [of n "unat len" p] DivCeil_cover [OF K, of "unat len"]
    by (simp add: assms)
  fix j assume j: "j < n"
  then have "j * ?K < unat len" unfolding assms by (intro DivCeil_less [OF _ K])
  then show "0 < length (icc_chunk p (unat len) j)"
    using K by (simp add: length_icc_chunk)
  show "length (icc_chunk p (unat len) j) \<le> 65519"
    by (simp add: length_icc_chunk flip: kMaxIccBytesInMarker_value)
  show "length (icc_marker p (unat len) n j) = 4 + 12 + 2 + length (icc_chunk p (unat len) j)"
    "icc_marker p (unat len) n j ! 1 = 0xE2"
    "take 12 (drop 4 (icc_marker p (unat len) n j)) = kICCSignature"
    "drop 18 (icc_marker p (unat len) n j) = icc_chunk p (unat len) j"
    using icc_marker_layout [of p "unat len" n j] by simp_all
qed

lemma icc_marker_small:
  "icc_marker ((!) [1, 2, 3]) 3 (Suc 0) 0 =
     [0xFF, 0xE2, 0, 19, 0x49, 0x43, 0x43, 0x5F, 0x50, 0x52, 0x4F, 0x46, 0x49, 0x4C, 0x45, 0x00,
      1, 1, 1, 2, 3]"
  by (simp add: icc_marker_def icc_chunk_def kMaxIccBytesInMarker_value marker_data_def
        kICCMarker_def JPEG_APP0_def kICCSignature_def numeral_3_eq_3)

theorem write_icc_profile_chunking_witness:
  "jpegli_write_icc_profile sample_cinfo ((!) [1, 2, 3]) 3 =
     Inr (sample_cinfo\<lparr>master := (master sample_cinfo)\<lparr>
            special_markers :=
              [[0xFF, 0xE2, 0, 19, 0x49, 0x43, 0x43, 0x5F, 0x50, 0x52, 0x4F, 0x46, 0x49, 0x4C,
                0x45, 0x00, 1, 1, 1, 2, 3]],
            cur_marker_data := Some 0\<rparr>\<rparr>)"
proof -
  have n: "1 = DivCeil (unat (3 :: 32 word)) kMaxIccBytesInMarker"
    by (simp add: DivCeil_def kMaxIccBytesInMarker_value)
  show ?thesis
    using write_icc_profile_chunking [OF n, of sample_cinfo "(!) [1, 2, 3]"]
    by (simp add: icc_marker_small sample_cinfo_def)
qed

text \<open>
  C2 as stated fails for a profile of 65518 bytes: the code emits one marker, which
  carries all 65518 bytes (more than 65517), while \<open>ceil(65518 / 65517) = 2\<close>.
\<close>

theorem write_icc_profile_chunk_size_counterexample:
  "jpegli_write_icc_profile sample_cinfo (\<lambda>i. 0) 65518 =
     Inr (sample_cinfo\<lparr>master := (master sample_cinfo)\<lparr>
            special_markers := [icc_marker (\<lambda>i. 0) 65518 1 0],
            cur_marker_data := Some 0\<rparr>\<rparr>) \<and>
   length (drop 18 (icc_marker (\<lambda>i. 0) 65518 1 0)) = 65518 \<and>
   (65517 :: nat) < 65518 \<and>
   \<lceil>(65518 :: real) / 65517\<rceil> = 2"
proof -
  have n: "1 = DivCeil (unat (65518 :: 32 word)) kMaxIccBytesInMarker"
    by (simp add: DivCeil_def kMaxIccBytesInMarker_value)
  have w: "jpegli_write_icc_profile sample_cinfo (\<lambda>i. 0) 65518 =
     Inr (sample_cinfo\<lparr>master := (master sample_cinfo)\<lparr>
            special_markers := [icc_marker (\<lambda>i. 0) 65518 1 0],
            cur_marker_data := Some 0\<rparr>\<rparr>)"
    using write_icc_profile_markers [OF n, of sample_cinfo "\<lambda>i. 0"]
    by (simp add: sample_cinfo_def)
  have l: "length (drop 18 (icc_marker (\<lambda>i. 0) 65518 1 0)) = 65518"
    using icc_marker_layout [of "\<lambda>i. 0" 65518 1 0]
    by (simp add: length_icc_chunk kMaxIccBytesInMarker_value)
  have c: "\<lceil>(65518 :: real) / 65517\<rceil> = 2"
    by (rule ceiling_unique) simp_all
  from w l c show ?thesis by simp
qed

subsection \<open>Reading the markers back\<close>

lemma nat_cat:
  assumes "b < 256"
  shows "push_bit 8 (a::nat) OR b = a * 256 + b"
proof -
  from assms have b: "take_bit 8 b = b" by (simp add: take_bit_nat_eq_self)
  have "push_bit 8 a + take_bit 8 b = push_bit 8 a OR take_bit 8 b"
    by (rule disjunctive_add) (auto simp: bit_push_bit_iff bit_take_bit_iff)
  then show ?thesis by (simp add: b push_bit_eq_mult)
qed

lemma GetMarkerPayload_marker_data:
  assumes d: "unat d \<le> 65533" and m: "0 \<le> marker" "marker < 256"
    and r: "length rest = unat d"
  shows "GetMarkerPayload (marker_data marker d @ rest) = Some rest"
proof -
  obtain b0 b1 b2 b3 where h: "marker_data marker d = [b0, b1, b2, b3]"
    by (simp add: marker_data_def)
  from marker_data_bytes [OF d m] h
  have b: "unat b2 = (unat d + 2) div 256" "unat b3 = (unat d + 2) mod 256" by simp_all
  have "push_bit 8 (unat b2) OR unat b3 = unat b2 * 256 + unat b3"
    by (rule nat_cat) (simp add: b)
  also have "\<dots> = unat d + 2" by (simp add: b)
  finally have sz: "push_bit 8 (unat b2) OR unat b3 = unat d + 2" .
  show ?thesis
    unfolding h GetMarkerPayload_def Let_def using r by (simp add: sz)
qed

lemma unat_byte_of_nat:
  assumes "k \<le> 255"
  shows "unat (word_of_nat k :: uint8_t) = k"
  using assms by (simp add: unat_of_nat)

lemma chunks_update:
  assumes "j < n"
  shows "(a # map f [0..<j] @ replicate (n - j) d)[Suc j := f j] =
           a # map f [0..<Suc j] @ replicate (n - Suc j) d"
proof -
  from assms have "replicate (n - j) d = d # replicate (n - Suc j) d"
    by (metis Suc_diff_Suc replicate_Suc)
  then show ?thesis
    using list_update_length [of "map f [0..<j]" d "replicate (n - Suc j) d" "f j"] by simp
qed

lemma presence_update:
  assumes "j < n"
  shows "(False # replicate j True @ replicate (n - j) False)[Suc j := True] =
           False # replicate (Suc j) True @ replicate (n - Suc j) False"
proof -
  from assms have "replicate (n - j) False = False # replicate (n - Suc j) False"
    by (metis Suc_diff_Suc replicate_Suc)
  then show ?thesis
    using list_update_length [of "replicate j True" False "replicate (n - Suc j) False" True]
    by (simp add: replicate_append_same)
qed

lemma presence_unset:
  assumes "j < n"
  shows "\<not> (False # replicate j True @ replicate (n - j) False) ! Suc j"
  using assms by (simp add: nth_append)


lemma parse_marker_icc:
  assumes jn: "j < n" and n: "n \<le> 255"
  shows "parse_marker 0xE2 kICCSignature False (parsed_prefix p L n j) (icc_marker p L n j) =
           Inr (parsed_prefix p L n (Suc j))"
proof -
  define chunk where "chunk = icc_chunk p L j"
  define d :: "32 word" where "d = word_of_nat (length chunk + length kICCSignature + 2)"
  define idx :: uint8_t where "idx = word_of_nat (j + 1)"
  define tot :: uint8_t where "tot = word_of_nat n"
  define rest where "rest = kICCSignature @ [idx, tot] @ chunk"
  define st where "st = parsed_prefix p L n j"
  have cl: "length chunk \<le> 65519"
    by (simp add: chunk_def length_icc_chunk flip: kMaxIccBytesInMarker_value)
  have sig: "length kICCSignature = 12" by (simp add: kICCSignature_def)
  have ud: "unat d = length chunk + 14"
    unfolding d_def sig by (subst unat_of_nat) (use cl in simp)
  have blob: "icc_marker p L n j = marker_data kICCMarker d @ rest"
    by (simp add: icc_marker_def rest_def chunk_def d_def idx_def tot_def)
  obtain hi lo where h: "marker_data kICCMarker d = [0xFF, 0xE2, hi, lo]"
    by (simp add: marker_data_def kICCMarker_def JPEG_APP0_def)
  have not_skipped: "\<not> (length (icc_marker p L n j) < 2 \<or> icc_marker p L n j ! 1 \<noteq> 0xE2)"
    by (simp add: blob h)
  have payload: "GetMarkerPayload (icc_marker p L n j) = Some rest"
    unfolding blob
    by (rule GetMarkerPayload_marker_data)
       (simp_all add: ud rest_def sig kICCMarker_def JPEG_APP0_def cl [THEN le_trans])
  have tag: "\<not> (length rest < length kICCSignature \<or> take (length kICCSignature) rest \<noteq> kICCSignature)"
    by (simp add: rest_def)
  have after_tag: "drop (length kICCSignature) rest = [idx, tot] @ chunk"
    by (simp add: rest_def)
  have ui: "unat idx = Suc j" unfolding idx_def using jn n by (subst unat_byte_of_nat) simp_all
  have ut: "unat tot = n" unfolding tot_def using n by (rule unat_byte_of_nat)
  have t0: "tot \<noteq> 0" using ut jn by (auto simp: unat_eq_zero [symmetric] simp del: unat_eq_zero)
  have i0: "idx \<noteq> 0" using ui by (auto simp: unat_eq_zero [symmetric] simp del: unat_eq_zero)
  have le: "\<not> idx > tot" using ui ut jn by (simp add: word_less_nat_alt)
  have ord: "ordinal st = j" by (simp add: st_def parsed_prefix_def)
  define st1 where "st1 = \<lparr>chunks = [] # map (icc_chunk p L) [0..<j] @ replicate (n - j) [],
         presence = False # replicate j True @ replicate (n - j) False,
         expected_number_of_parts = n, is_first_chunk = False, ordinal = Suc j\<rparr>"
  have first: "(if is_first_chunk (st\<lparr>ordinal := ordinal st + 1\<rparr>) then
                 Inr (st\<lparr>ordinal := ordinal st + 1, is_first_chunk := False,
                         expected_number_of_parts := unat tot,
                         chunks := resize (unat tot + 1) [] (chunks (st\<lparr>ordinal := ordinal st + 1\<rparr>)),
                         presence := resize (unat tot + 1) False (presence (st\<lparr>ordinal := ordinal st + 1\<rparr>))\<rparr>)
               else if expected_number_of_parts (st\<lparr>ordinal := ordinal st + 1\<rparr>) \<noteq> unat tot
                    then Inl TotalMismatch
               else Inr (st\<lparr>ordinal := ordinal st + 1\<rparr>)) = Inr st1"
  proof (cases "j = 0")
    case True
    then show ?thesis
      by (simp add: st_def st1_def parsed_prefix_def resize_def ut replicate_Suc [symmetric]
            del: replicate_Suc)
  next
    case False
    then show ?thesis
      by (simp add: st_def st1_def parsed_prefix_def ut)
  qed
  have final: "st1\<lparr>presence := (presence st1)[unat idx := True],
                   chunks := (chunks st1)[unat idx := chunk]\<rparr> = parsed_prefix p L n (Suc j)"
    using chunks_update [OF jn, of "[]" "icc_chunk p L" "[]"] presence_update [OF jn]
    by (simp add: st1_def ui parsed_prefix_def chunk_def del: upt_Suc replicate_Suc)
  have unset: "\<not> presence st1 ! unat idx"
    using presence_unset [OF jn] by (simp add: st1_def ui)
  have p: "([idx, tot] @ chunk) ! 0 = idx" "([idx, tot] @ chunk) ! 1 = tot"
    "\<not> length ([idx, tot] @ chunk) < 2" "drop 2 ([idx, tot] @ chunk) = chunk"
    by simp_all
  have ordS: "unat idx = ordinal (st\<lparr>ordinal := ordinal st + 1\<rparr>)"
    by (simp add: ui ord)
  show ?thesis
    unfolding parse_marker_def st_def [symmetric]
    apply (simp only: not_skipped payload tag after_tag if_False option.case Let_def)
    apply (simp only: p if_False ordS [symmetric] simp_thms t0 first sum.case i0 le unset final)
    done
qed


lemma parse_markers_icc:
  assumes "d = n - j" "j \<le> n" "n \<le> 255"
  shows "parse_markers 0xE2 kICCSignature False (parsed_prefix p L n j)
           (map (icc_marker p L n) [j..<n]) = Inr (parsed_prefix p L n n)"
  using assms
proof (induction d arbitrary: j)
  case 0
  then show ?case by simp
next
  case (Suc d)
  then have jn: "j < n" by simp
  have "parse_markers 0xE2 kICCSignature False (parsed_prefix p L n (Suc j))
           (map (icc_marker p L n) [Suc j..<n]) = Inr (parsed_prefix p L n n)"
    using Suc.prems by (intro Suc.IH) simp_all
  then show ?case
    using jn by (simp add: upt_conv_Cons parse_marker_icc [OF jn Suc.prems(3)])
qed

lemma parse_markers_skip:
  assumes "\<forall>m \<in> set pre. length m < 2 \<or> m ! 1 \<noteq> marker_type"
  shows "parse_markers marker_type tag ap st (pre @ rest) = parse_markers marker_type tag ap st rest"
  using assms by (induction pre) (auto simp: parse_marker_def)

lemma append_chunks_icc:
  assumes "d = n - a" "a \<le> n"
  shows "append_chunks (parsed_prefix p L n n) [a..<n] out =
           Inr (out @ concat (map (icc_chunk p L) [a..<n]))"
  using assms
proof (induction d arbitrary: a out)
  case 0
  then show ?case by simp
next
  case (Suc d)
  then have an: "a < n" by simp
  then have n0: "n \<noteq> 0" by simp
  have pres: "presence (parsed_prefix p L n n) ! (a + 1)"
    using an by (simp add: parsed_prefix_def n0)
  have ch: "chunks (parsed_prefix p L n n) ! (a + 1) = icc_chunk p L a"
    using an by (simp add: parsed_prefix_def n0 del: upt_Suc)
  have "append_chunks (parsed_prefix p L n n) [Suc a..<n] (out @ icc_chunk p L a) =
           Inr ((out @ icc_chunk p L a) @ concat (map (icc_chunk p L) [Suc a..<n]))"
    using Suc.prems by (intro Suc.IH) simp_all
  then show ?case
    using an pres ch by (simp add: upt_conv_Cons Let_def)
qed

lemma DivCeil_le:
  assumes "L \<le> m * K" "0 < K"
  shows "DivCeil L K \<le> m"
proof -
  have "L + K - 1 < Suc m * K" using assms by simp
  then have "(L + K - 1) div K < Suc m"
    using assms(2) by (simp add: less_mult_imp_div_less)
  then show ?thesis by (simp add: DivCeil_def)
qed

lemma icc_round_trip:
  fixes cinfo :: "'f jpeg_compress_struct"
  assumes len: "length bytes \<le> 255 * kMaxIccBytesInMarker"
    and pre: "\<forall>m \<in> set (special_markers (master cinfo)). length m < 2 \<or> m ! 1 \<noteq> 0xE2"
  shows "\<exists>cinfo'. jpegli_write_icc_profile cinfo ((!) bytes) (word_of_nat (length bytes)) = Inr cinfo' \<and>
           ParseChunkedMarker cinfo' 0xE2 kICCSignature False = Inr bytes"
proof -
  let ?K = "kMaxIccBytesInMarker"
  let ?p = "(!) bytes"
  let ?L = "length bytes"
  have K: "0 < ?K" by (simp add: kMaxIccBytesInMarker_value)
  define n where "n = DivCeil ?L ?K"
  have n255: "n \<le> 255" unfolding n_def using len K by (rule DivCeil_le)
  have "?L < 2 ^ 32" using len by (simp add: kMaxIccBytesInMarker_value)
  then have ul: "unat (word_of_nat ?L :: 32 word) = ?L" by (simp add: unat_of_nat)
  define cinfo' where "cinfo' = cinfo\<lparr>master := (master cinfo)\<lparr>
                  special_markers := special_markers (master cinfo) @
                    map (icc_marker ?p ?L n) [0..<n],
                  cur_marker_data :=
                    (if 0 < n then Some (length (special_markers (master cinfo)) + n - 1)
                     else cur_marker_data (master cinfo))\<rparr>\<rparr>"
  have w: "jpegli_write_icc_profile cinfo ?p (word_of_nat ?L) = Inr cinfo'"
    using write_icc_profile_markers [of n "word_of_nat ?L" cinfo ?p]
    by (simp add: ul n_def cinfo'_def)
  have init: "\<lparr>chunks = [], presence = [], expected_number_of_parts = 0,
              is_first_chunk = True, ordinal = 0\<rparr> = parsed_prefix ?p ?L n 0"
    by (simp add: parsed_prefix_def)
  have loop1: "parse_markers 0xE2 kICCSignature False (parsed_prefix ?p ?L n 0)
                 (special_markers (master cinfo')) = Inr (parsed_prefix ?p ?L n n)"
    using parse_markers_icc [of n n 0 ?p ?L] n255
    by (simp add: cinfo'_def parse_markers_skip [OF pre])
  have exp: "expected_number_of_parts (parsed_prefix ?p ?L n n) = n"
    by (simp add: parsed_prefix_def)
  have "concat (map (icc_chunk ?p ?L) [0..<n]) = map ?p [0..<min ?L (n * ?K)]"
    unfolding n_def by (rule concat_icc_chunks) simp
  also have "min ?L (n * ?K) = ?L"
    using DivCeil_cover [OF K, of ?L] by (simp add: n_def)
  also have "map ?p [0..<?L] = bytes" by (rule map_nth)
  finally have cc: "concat (map (icc_chunk ?p ?L) [0..<n]) = bytes" .
  have loop2: "append_chunks (parsed_prefix ?p ?L n n) [0..<n] [] = Inr bytes"
    using append_chunks_icc [of n n 0 ?p ?L "[]"] by (simp add: cc)
  have "ParseChunkedMarker cinfo' 0xE2 kICCSignature False = Inr bytes"
    unfolding ParseChunkedMarker_def init loop1 by (simp add: exp loop2)
  with w show ?thesis by blast
qed

text \<open>
  C1. Let \<open>bytes\<close> have at most \<open>65517 * 255\<close> bytes and let no marker stored so far
  be an APP2 marker. Then \<open>jpegli_write_icc_profile\<close> on \<open>bytes\<close> succeeds, and
  \<open>ParseChunkedMarker\<close> for APP2 and the tag \<open>kICCSignature\<close> (the 12 bytes of
  "ICC_PROFILE" with the final zero), without permutations, on the resulting markers
  succeeds and returns exactly \<open>bytes\<close>.
\<close>

theorem icc_profile_round_trip:
  fixes cinfo :: "'f jpeg_compress_struct"
  assumes "length bytes \<le> 65517 * 255"
    and "\<forall>m \<in> set (special_markers (master cinfo)). length m < 2 \<or> m ! 1 \<noteq> 0xE2"
  shows "case jpegli_write_icc_profile cinfo ((!) bytes) (word_of_nat (length bytes)) of
           Inl e \<Rightarrow> False
         | Inr cinfo' \<Rightarrow> ParseChunkedMarker cinfo' 0xE2 kICCSignature False = Inr bytes"
proof -
  from assms(1) have "length bytes \<le> 255 * kMaxIccBytesInMarker"
    by (simp add: kMaxIccBytesInMarker_value)
  from icc_round_trip [OF this assms(2)] show ?thesis by auto
qed

theorem icc_profile_round_trip_witness:
  "case jpegli_write_icc_profile
          (sample_cinfo\<lparr>master := (master sample_cinfo)\<lparr>special_markers := [[0xFF, 0xFE, 0, 3, 7]]\<rparr>\<rparr>)
          ((!) [1, 2, 3]) (word_of_nat (length [1 :: uint8_t, 2, 3])) of
     Inl e \<Rightarrow> False
   | Inr cinfo' \<Rightarrow> ParseChunkedMarker cinfo' 0xE2 kICCSignature False = Inr [1, 2, 3]"
proof -
  have a: "length [1 :: uint8_t, 2, 3] \<le> 65517 * 255" by simp
  have b: "\<forall>m \<in> set (special_markers (master
        (sample_cinfo\<lparr>master := (master sample_cinfo)\<lparr>special_markers := [[0xFF, 0xFE, 0, 3, 7]]\<rparr>\<rparr>))).
        length m < 2 \<or> m ! 1 \<noteq> 0xE2" by simp
  show ?thesis by (rule icc_profile_round_trip [OF a b])
qed

end
